theory Spec2Isabelle
  imports Main "HOL-Library.Sublist"
begin

section \<open>Plugin identities (class \<open>Plugin\<close> of \<open>cogs/plugins.py\<close>)\<close>

text \<open>
  A \<open>Plugin\<close> object holds the four strings \<open>user\<close>, \<open>repo\<close>, \<open>name\<close> and \<open>branch\<close>;
  \<open>url\<close> and \<open>link\<close> are computed from them in \<open>__init__\<close> and are functions here.
  Python strings are modelled as \<open>string\<close>; the only character classes the code looks at
  are \<open>/\<close>, \<open>@\<close> and the line feed (the one character the regular expression's \<open>.\<close> refuses).
\<close>

record plugin =
  user :: string
  repo :: string
  name :: string
  branch :: string

datatype exn =
    InvalidPluginError
  | ValueError
  | KeyError
  | OSError
  | ClientError
  | BadZipFile
  | ConfigError
  | ExtensionAlreadyLoaded
  | ExtensionFailed
  | ExtensionNotLoaded
  | ImportError

definition Plugin :: "string \<Rightarrow> string \<Rightarrow> string \<Rightarrow> string option \<Rightarrow> plugin" where
  "Plugin u r n b =
     \<lparr>user = u, repo = r, name = n,
      branch = (case b of None \<Rightarrow> ''master'' | Some x \<Rightarrow> x)\<rparr>"

definition url :: "plugin \<Rightarrow> string" where
  "url p = ''https://github.com/'' @ user p @ ''/'' @ repo p @ ''/archive/'' @ branch p @ ''.zip''"

definition link :: "plugin \<Rightarrow> string" where
  "link p = ''https://github.com/'' @ user p @ ''/'' @ repo p @ ''/tree/'' @ branch p @ ''/'' @ name p"

definition ext_string :: "plugin \<Rightarrow> string" where
  "ext_string p =
     ''plugins.'' @ user p @ ''.'' @ repo p @ ''.'' @ name p @ ''-'' @ branch p @ ''.'' @ name p"

definition str :: "plugin \<Rightarrow> string" where
  "str p = user p @ ''/'' @ repo p @ ''/'' @ name p @ ''@'' @ branch p"

subsection \<open>The two regular expressions of \<open>from_string\<close>\<close>

text \<open>
  \<open>re.match\<close> is a backtracking matcher: alternatives are tried in priority order and the
  first complete match wins. The patterns are built from three pieces only, each written
  here with the rest of the pattern as a continuation that may fail (\<open>None\<close>):
  \<^item> \<open>(.+?)\<close>, a lazy group of one or more characters other than the line feed, which
    tries the shortest text first and grows by one character when the rest fails;
  \<^item> a literal character;
  \<^item> \<open>$\<close> (no MULTILINE flag), which holds at the end of the text and just before a
    line feed that ends the text.
\<close>

definition newline :: char where
  "newline = CHR 0x0A"

fun lazy_group :: "(string \<Rightarrow> string \<Rightarrow> 'a option) \<Rightarrow> string \<Rightarrow> string \<Rightarrow> 'a option" where
  "lazy_group k acc [] = None"
| "lazy_group k acc (c # cs) =
     (if c = newline then None
      else (case k (acc @ [c]) cs of
              Some m \<Rightarrow> Some m
            | None \<Rightarrow> lazy_group k (acc @ [c]) cs))"

definition lit :: "char \<Rightarrow> (string \<Rightarrow> 'a option) \<Rightarrow> string \<Rightarrow> 'a option" where
  "lit d k s = (case s of [] \<Rightarrow> None | c # cs \<Rightarrow> if c = d then k cs else None)"

definition at_end :: "string \<Rightarrow> bool" where
  "at_end s = (s = [] \<or> s = [newline])"

type_synonym groups = "string \<times> string \<times> string \<times> string option"

text \<open>\<open>^(.+?)/(.+?)/(.+?)@(.+?)$\<close>\<close>

definition match_strict :: "string \<Rightarrow> groups option" where
  "match_strict s =
     lazy_group (\<lambda>g1. lit CHR ''/''
       (lazy_group (\<lambda>g2. lit CHR ''/''
         (lazy_group (\<lambda>g3. lit CHR ''@''
           (lazy_group (\<lambda>g4 r. if at_end r then Some (g1, g2, g3, Some g4) else None) []))
          []))
        []))
      [] s"

text \<open>
  \<open>^(.+?)/(.+?)/(.+?)(?:@(.+?))?$\<close>: the optional group is greedy, so the branch with
  \<open>@\<close> is tried first and the empty one only when it fails.
\<close>

definition match_lenient :: "string \<Rightarrow> groups option" where
  "match_lenient s =
     lazy_group (\<lambda>g1. lit CHR ''/''
       (lazy_group (\<lambda>g2. lit CHR ''/''
         (lazy_group (\<lambda>g3 r3.
            (case lit CHR ''@''
                    (lazy_group (\<lambda>g4 r. if at_end r then Some (g1, g2, g3, Some g4) else None) [])
                    r3 of
               Some m \<Rightarrow> Some m
             | None \<Rightarrow> if at_end r3 then Some (g1, g2, g3, None) else None))
          []))
        []))
      [] s"

definition from_string :: "string \<Rightarrow> bool \<Rightarrow> exn + plugin" where
  "from_string s strict =
     (case (if \<not> strict then match_lenient s else match_strict s) of
        Some (g1, g2, g3, g4) \<Rightarrow> Inr (Plugin g1 g2 g3 g4)
      | None \<Rightarrow> Inl InvalidPluginError)"

text \<open>What the claims call a valid field: not empty, no separator, no line feed.\<close>

definition valid_field :: "string \<Rightarrow> bool" where
  "valid_field f = (f \<noteq> [] \<and> CHR ''/'' \<notin> set f \<and> CHR ''@'' \<notin> set f \<and> newline \<notin> set f)"

definition valid_branch :: "string \<Rightarrow> bool" where
  "valid_branch b = (b \<noteq> [] \<and> newline \<notin> set b)"

section \<open>Paths (\<open>pathlib\<close>, POSIX flavour)\<close>

text \<open>
  A path is the tuple \<open>PurePath.parts\<close>: the root \<open>/\<close> (or \<open>//\<close> for exactly two leading
  slashes) first when the text is absolute, then the components, empty components and
  \<open>.\<close> dropped, \<open>..\<close> kept. Joining with an absolute path gives that path.
\<close>

type_synonym path = "string list"

fun split_on :: "char \<Rightarrow> string \<Rightarrow> string list" where
  "split_on d [] = [[]]"
| "split_on d (c # cs) =
     (if c = d then [] # split_on d cs
      else (case split_on d cs of [] \<Rightarrow> [[c]] | x # xs \<Rightarrow> (c # x) # xs))"

definition parts :: "string \<Rightarrow> path" where
  "parts s =
     (let comps = filter (\<lambda>x. x \<noteq> [] \<and> x \<noteq> ''.'') (split_on CHR ''/'' s) in
      if s \<noteq> [] \<and> hd s = CHR ''/''
      then (if length (takeWhile (\<lambda>c. c = CHR ''/'') s) = 2 then ''//'' else ''/'') # comps
      else comps)"

definition is_absolute :: "path \<Rightarrow> bool" where
  "is_absolute p = (p \<noteq> [] \<and> (hd p = ''/'' \<or> hd p = ''//''))"

definition join_parts :: "path \<Rightarrow> path \<Rightarrow> path" where
  "join_parts p q = (if is_absolute q then q else p @ q)"

definition joinpath :: "path \<Rightarrow> string \<Rightarrow> path" where
  "joinpath p s = join_parts p (parts s)"

definition parent :: "path \<Rightarrow> path" where
  "parent p = (if p = [''/''] \<or> p = [''//''] then p else butlast p)"

text \<open>\<open>Plugin.path\<close>, \<open>Plugin.abs_path\<close> and \<open>Plugin.cache_path\<close>; \<open>base\<close> is the directory
  \<open>Path(__file__).absolute().parent.parent\<close>.\<close>

definition rel_path :: "plugin \<Rightarrow> path" where
  "rel_path p =
     joinpath (joinpath (joinpath [''plugins''] (user p)) (repo p)) (name p @ ''-'' @ branch p)"

definition abs_path :: "path \<Rightarrow> plugin \<Rightarrow> path" where
  "abs_path base p = join_parts base (rel_path p)"

definition cache_path :: "path \<Rightarrow> plugin \<Rightarrow> path" where
  "cache_path base p =
     joinpath (joinpath (joinpath base ''temp'') ''plugins-cache'')
       (user p @ ''-'' @ repo p @ ''-'' @ branch p @ ''.zip'')"

section \<open>The file system\<close>

text \<open>
  The file system is the list of the paths that exist, each a directory or a file with
  its content; the first entry of a path is the current one, and every entry is filed
  under its real path, in which no \<open>..\<close> is left. There are no symbolic links, so the
  system resolves a path from left to right: a component \<open>..\<close> leads to the parent of the
  directory reached so far (the root is its own parent), any other component one level
  down. A path that starts at the root is meant throughout; \<open>base_dir\<close> is absolute. An
  operation raises \<open>OSError\<close> exactly when the shape of the tree forbids it; permissions
  and full disks are not modelled.
\<close>

datatype node = Dir | File string

type_synonym filesystem = "(path \<times> node) list"

definition step :: "path \<Rightarrow> string \<Rightarrow> path" where
  "step cur c = (if c = ''..'' then parent cur else cur @ [c])"

definition realpath :: "path \<Rightarrow> path" where
  "realpath p = foldl step [] p"

text \<open>The system can follow a path only if every \<open>..\<close> in it is taken from a directory
  that exists.\<close>

fun walkable :: "filesystem \<Rightarrow> path \<Rightarrow> path \<Rightarrow> bool" where
  "walkable fs cur [] = True"
| "walkable fs cur (c # cs) =
     (if c = ''..'' then map_of fs cur = Some Dir \<and> walkable fs (parent cur) cs
      else walkable fs (cur @ [c]) cs)"

definition resolves :: "filesystem \<Rightarrow> path \<Rightarrow> bool" where
  "resolves fs p = walkable fs [] p"

text \<open>\<open>Path.exists()\<close>.\<close>

definition path_exists :: "filesystem \<Rightarrow> path \<Rightarrow> bool" where
  "path_exists fs p = (resolves fs p \<and> map_of fs (realpath p) \<noteq> None)"

text \<open>\<open>Path.mkdir(parents=True, exist_ok=ok)\<close>. pathlib tries \<open>os.mkdir\<close> on the path, on
  \<open>FileNotFoundError\<close> makes the (lexical) parent in the same way with \<open>exist_ok=True\<close> and
  tries again; so the ancestors are visited from the outermost inwards, each one is
  created if it is missing and accepted if it is a directory, and a file in this place
  raises, the directories created before staying. Only for the path itself the flag
  decides whether an existing directory is accepted. \<open>ts\<close> are the real paths of the
  ancestors and of the path, outermost first.\<close>

fun mkdirs :: "bool \<Rightarrow> filesystem \<Rightarrow> path list \<Rightarrow> (exn + unit) \<times> filesystem" where
  "mkdirs ok fs [] = (Inr (), fs)"
| "mkdirs ok fs (t # ts) =
     (case map_of fs t of
        None \<Rightarrow> mkdirs ok (fs @ [(t, Dir)]) ts
      | Some Dir \<Rightarrow> if ts = [] \<and> \<not> ok then (Inl OSError, fs) else mkdirs ok fs ts
      | Some (File d) \<Rightarrow> (Inl OSError, fs))"

definition mkdir_parents :: "bool \<Rightarrow> filesystem \<Rightarrow> path \<Rightarrow> (exn + unit) \<times> filesystem" where
  "mkdir_parents ok fs p = mkdirs ok fs (map realpath (tl (prefixes p)))"

text \<open>\<open>Path.open("wb")\<close> followed by the write: the directory the path lies in must
  exist, and the path itself must not be a directory (as \<open>..\<close> always is).\<close>

definition write_file :: "filesystem \<Rightarrow> path \<Rightarrow> string \<Rightarrow> exn + filesystem" where
  "write_file fs p d =
     (if p \<noteq> [] \<and> last p \<noteq> ''..'' \<and> resolves fs (butlast p)
         \<and> map_of fs (realpath (butlast p)) = Some Dir \<and> map_of fs (realpath p) \<noteq> Some Dir
      then Inr ((realpath p, File d) # fs) else Inl OSError)"

text \<open>\<open>Path.open("rb")\<close> and the later read.\<close>

definition read_file :: "filesystem \<Rightarrow> path \<Rightarrow> exn + string" where
  "read_file fs p =
     (if resolves fs p
      then (case map_of fs (realpath p) of Some (File d) \<Rightarrow> Inr d | _ \<Rightarrow> Inl OSError)
      else Inl OSError)"

text \<open>\<open>shutil.rmtree(path, onerror=...)\<close>: errors are passed to the logging callback, never
  raised; a path that is not a directory is left as it is. The system refuses to remove
  a directory named by a path that ends in \<open>..\<close>, so there only what lies in it goes.\<close>

definition rmtree :: "filesystem \<Rightarrow> path \<Rightarrow> filesystem" where
  "rmtree fs p =
     (if resolves fs p \<and> map_of fs (realpath p) = Some Dir
      then (if p \<noteq> [] \<and> last p = ''..''
            then filter (\<lambda>(q, _). \<not> strict_prefix (realpath p) q) fs
            else filter (\<lambda>(q, _). \<not> prefix (realpath p) q) fs)
      else fs)"

text \<open>\<open>Path.rmdir()\<close>: only an empty directory can be removed, and not under a name that
  ends in \<open>..\<close>.\<close>

definition rmdir :: "filesystem \<Rightarrow> path \<Rightarrow> exn + filesystem" where
  "rmdir fs p =
     (if p \<noteq> [] \<and> last p \<noteq> ''..'' \<and> resolves fs p \<and> map_of fs (realpath p) = Some Dir
         \<and> \<not> (\<exists>(q, _) \<in> set fs. strict_prefix (realpath p) q)
      then Inr (filter (\<lambda>(q, _). q \<noteq> realpath p) fs) else Inl OSError)"

section \<open>The bot, its collaborators, and what can be observed\<close>

text \<open>
  \<open>ZipInfo\<close>: the member's name and its bytes; \<open>is_dir()\<close> holds when the name ends with a
  slash.
\<close>

record zip_info =
  filename :: string
  data :: string

definition zi_is_dir :: "zip_info \<Rightarrow> bool" where
  "zi_is_dir z = (filename z \<noteq> [] \<and> last (filename z) = CHR ''/'')"

record registry_entry =
  repository :: string
  reg_branch :: "string option"
  bot_version :: "string option"

text \<open>
  What the cog reads from outside during one operation: the configuration flag, the
  registry dictionary (filled by \<open>populate_registry\<close>), the names of the bot's cogs, the
  network (\<open>None\<close>: the request raises), the \<open>zipfile\<close> library (\<open>None\<close>: \<open>BadZipFile\<close>),
  whether \<open>pip\<close> wrote to its standard error, what importing and setting up an extension
  raises (\<open>None\<close>: it succeeds), the version comparison \<open>bot.version < parse_version(v)\<close>,
  and whether the configuration store accepts an update.
\<close>

record env =
  base_dir :: path
  enable_plugins :: bool
  registry :: "string \<Rightarrow> registry_entry option"
  cogs :: "string set"
  http_get :: "string \<Rightarrow> string option"
  zip_infolist :: "string \<Rightarrow> zip_info list option"
  pip_stderr :: "path \<Rightarrow> bool"
  extension_error :: "string \<Rightarrow> exn option"
  version_too_low :: "string \<Rightarrow> bool"
  config_update_ok :: bool

text \<open>The embeds sent to the user, one constructor per message of the source, and the
  effects on the outside world in the order in which they happen.\<close>

datatype reply =
    StillLoading
  | VersionTooLow
  | InvalidName
  | AlreadyInstalled
  | NameConflict
  | Downloading string
  | DownloadFailed
  | LoadFailed
  | InstalledOk
  | InstalledDisabled
  | NotInstalled
  | Removed
  | Updated string

datatype event =
    Send reply
  | Edit reply
  | HttpGet string
  | CacheRead path
  | PipInstall path
  | ConfigUpdate "string list"
  | ReadySet

text \<open>
  The state: \<open>bot.config["plugins"]\<close> (the list in memory), the copy last written to the
  configuration store by \<open>config.update()\<close>, the file system, \<open>self.loaded_plugins\<close>, the
  extensions active in the bot, \<open>self._ready_event\<close>, and the effects so far.

  Every coroutine is a function from the state to a result and the new state; what a
  coroutine did before it raised stays done. The operations run one at a time, as the
  event loop runs them between two \<open>await\<close>s of different tasks. Calls to the logger and
  \<open>sys.path\<close> have no part in the state and are left out; sending or editing a message is
  recorded and never raises. The loaded set compares plugins field by field; the
  source compares their texts and hashes their fields, which is the same wherever no
  field holds \<open>/\<close> or \<open>@\<close>.
\<close>

record bot =
  config_plugins :: "string list"
  stored_plugins :: "string list"
  files :: filesystem
  loaded_plugins :: "plugin set"
  extensions :: "string set"
  ready :: bool
  trace :: "event list"

definition emit :: "event \<Rightarrow> bot \<Rightarrow> bot" where
  "emit e s = s\<lparr>trace := trace s @ [e]\<rparr>"

text \<open>\<open>ConfigManager.update\<close>: writes the cache to the store. \<open>filter_default\<close> leaves out
  every key whose value is its default, so the empty list goes to the store as a missing
  key, for which the default, the empty list, is read; \<open>stored_plugins\<close> is the list as
  read from the store.\<close>

definition config_update :: "env \<Rightarrow> bot \<Rightarrow> (exn + unit) \<times> bot" where
  "config_update env s =
     (if config_update_ok env
      then (Inr (), emit (ConfigUpdate (config_plugins s)) (s\<lparr>stored_plugins := config_plugins s\<rparr>))
      else (Inl ConfigError, s))"

text \<open>\<open>bot.load_extension\<close> and \<open>bot.unload_extension\<close> of discord.py, as far as the cog
  relies on them: loading a loaded extension and unloading one that is not loaded raise
  an \<open>ExtensionError\<close>; what the import raises is an \<open>ExtensionError\<close> when discord.py
  wraps it (\<open>ExtensionFailed\<close>) and anything else when it does not.\<close>

definition is_extension_error :: "exn \<Rightarrow> bool" where
  "is_extension_error e = (e = ExtensionAlreadyLoaded \<or> e = ExtensionFailed \<or> e = ExtensionNotLoaded)"

definition load_extension :: "env \<Rightarrow> bot \<Rightarrow> string \<Rightarrow> (exn + unit) \<times> bot" where
  "load_extension env s ext =
     (if ext \<in> extensions s then (Inl ExtensionAlreadyLoaded, s)
      else (case extension_error env ext of
              None \<Rightarrow> (Inr (), s\<lparr>extensions := insert ext (extensions s)\<rparr>)
            | Some e \<Rightarrow> (Inl e, s)))"

definition unload_extension :: "bot \<Rightarrow> string \<Rightarrow> (exn + unit) \<times> bot" where
  "unload_extension s ext =
     (if ext \<in> extensions s then (Inr (), s\<lparr>extensions := extensions s - {ext}\<rparr>)
      else (Inl ExtensionNotLoaded, s))"

section \<open>\<open>Plugins.download_plugin\<close>\<close>

text \<open>The body of the \<open>if\<close> in the loop over the archive, for one entry \<open>info\<close> and its
  target \<open>plugin_path\<close>: a directory entry makes the directory, any other entry makes the
  directory it lies in and writes the file.\<close>

definition install_entry :: "path \<Rightarrow> zip_info \<Rightarrow> filesystem \<Rightarrow> (exn + unit) \<times> filesystem" where
  "install_entry plugin_path info fs =
     (if zi_is_dir info then mkdir_parents True fs plugin_path
      else
        (case mkdir_parents True fs (parent plugin_path) of
           (Inl e, fs1) \<Rightarrow> (Inl e, fs1)
         | (Inr _, fs1) \<Rightarrow>
             (case write_file fs1 plugin_path (data info) of
                Inl e \<Rightarrow> (Inl e, fs1)
              | Inr fs2 \<Rightarrow> (Inr (), fs2))))"

text \<open>The loop over \<open>zipf.infolist()\<close>; \<open>dest\<close> is \<open>plugin.abs_path\<close>, \<open>nm\<close> is \<open>plugin.name\<close>.
  The target \<open>plugin.abs_path / Path(*path.parts[2:])\<close> is handed to the file system as it
  is; the parts after the second are never absolute, so the join appends them.\<close>

fun extract_entries :: "path \<Rightarrow> string \<Rightarrow> zip_info list \<Rightarrow> filesystem \<Rightarrow> (exn + unit) \<times> filesystem" where
  "extract_entries dest nm [] fs = (Inr (), fs)"
| "extract_entries dest nm (info # infos) fs =
     (let ps = parts (filename info) in
      if 3 \<le> length ps \<and> ps ! 1 = nm then
        (case install_entry (dest @ drop 2 ps) info fs of
           (Inl e, fs1) \<Rightarrow> (Inl e, fs1)
         | (Inr _, fs1) \<Rightarrow> extract_entries dest nm infos fs1)
      else extract_entries dest nm infos fs)"

text \<open>The \<open>with zipfile.ZipFile(plugin_io)\<close> block on the bytes \<open>raw\<close>.\<close>

definition unpack :: "env \<Rightarrow> bot \<Rightarrow> plugin \<Rightarrow> string \<Rightarrow> (exn + unit) \<times> bot" where
  "unpack env s plugin raw =
     (case zip_infolist env raw of
        None \<Rightarrow> (Inl BadZipFile, s)
      | Some infos \<Rightarrow>
          (case extract_entries (abs_path (base_dir env) plugin) (name plugin) infos (files s) of
             (r, fs3) \<Rightarrow> (r, s\<lparr>files := fs3\<rparr>)))"

text \<open>The \<open>else\<close> branch of the cache test: download, then store the bytes in the cache.\<close>

definition fetch_archive :: "env \<Rightarrow> bot \<Rightarrow> plugin \<Rightarrow> (exn + string) \<times> bot" where
  "fetch_archive env s plugin =
     (let cp = cache_path (base_dir env) plugin;
          s1 = emit (HttpGet (url plugin)) s in
      case http_get env (url plugin) of
        None \<Rightarrow> (Inl ClientError, s1)
      | Some raw \<Rightarrow>
          (case (if \<not> path_exists (files s1) (parent cp)
                 then mkdir_parents False (files s1) (parent cp) else (Inr (), files s1)) of
             (Inl e, fs1) \<Rightarrow> (Inl e, s1\<lparr>files := fs1\<rparr>)
           | (Inr _, fs1) \<Rightarrow>
               (case write_file fs1 cp raw of
                  Inl e \<Rightarrow> (Inl e, s1\<lparr>files := fs1\<rparr>)
                | Inr fs2 \<Rightarrow> (Inr raw, s1\<lparr>files := fs2\<rparr>))))"

text \<open>The \<open>if\<close> branch of the cache test: the cached file is opened and read.\<close>

definition open_cached :: "bot \<Rightarrow> path \<Rightarrow> (exn + string) \<times> bot" where
  "open_cached s cp =
     (case read_file (files s) cp of
        Inl e \<Rightarrow> (Inl e, s)
      | Inr raw \<Rightarrow> (Inr raw, emit (CacheRead cp) s))"

definition download_plugin :: "env \<Rightarrow> bot \<Rightarrow> plugin \<Rightarrow> bool \<Rightarrow> (exn + unit) \<times> bot" where
  "download_plugin env s plugin force =
     (let ap = abs_path (base_dir env) plugin;
          cp = cache_path (base_dir env) plugin in
      if path_exists (files s) ap \<and> \<not> force then (Inr (), s)
      else
        (case mkdir_parents True (files s) ap of
           (Inl e, fs1) \<Rightarrow> (Inl e, s\<lparr>files := fs1\<rparr>)
         | (Inr _, fs1) \<Rightarrow>
             (case (if path_exists fs1 cp \<and> \<not> force
                    then open_cached (s\<lparr>files := fs1\<rparr>) cp
                    else fetch_archive env (s\<lparr>files := fs1\<rparr>) plugin) of
                (Inl e, s2) \<Rightarrow> (Inl e, s2)
              | (Inr raw, s2) \<Rightarrow> unpack env s2 plugin raw)))"

section \<open>\<open>Plugins.load_plugin\<close>\<close>

definition load_plugin :: "env \<Rightarrow> bot \<Rightarrow> plugin \<Rightarrow> (exn + unit) \<times> bot" where
  "load_plugin env s plugin =
     (let ap = abs_path (base_dir env) plugin;
          req_txt = joinpath ap ''requirements.txt'' in
      if \<not> path_exists (files s) (joinpath ap (name plugin @ ''.py''))
      then (Inl InvalidPluginError, s)
      else
        (case (if path_exists (files s) req_txt
               then (if pip_stderr env req_txt
                     then (Inl InvalidPluginError, emit (PipInstall req_txt) s)
                     else (Inr (), emit (PipInstall req_txt) s))
               else (Inr (), s)) of
           (Inl e, s1) \<Rightarrow> (Inl e, s1)
         | (Inr _, s1) \<Rightarrow>
             (case load_extension env s1 (ext_string plugin) of
                (Inl e, s2) \<Rightarrow> (Inl (if is_extension_error e then InvalidPluginError else e), s2)
              | (Inr _, s2) \<Rightarrow>
                  (Inr (), s2\<lparr>loaded_plugins := insert plugin (loaded_plugins s2)\<rparr>))))"

section \<open>\<open>Plugins.parse_user_input\<close>\<close>

text \<open>\<open>details["repository"].split("/", maxsplit=1)\<close> unpacked into two names: a
  \<open>ValueError\<close> when there is no slash.\<close>

definition split_repository :: "string \<Rightarrow> exn + string \<times> string" where
  "split_repository s =
     (if CHR ''/'' \<in> set s
      then Inr (takeWhile (\<lambda>c. c \<noteq> CHR ''/'') s, tl (dropWhile (\<lambda>c. c \<noteq> CHR ''/'') s))
      else Inl ValueError)"

definition parse_user_input :: "env \<Rightarrow> bot \<Rightarrow> string \<Rightarrow> bool \<Rightarrow> (exn + plugin option) \<times> bot" where
  "parse_user_input env s plugin_name check_version =
     (if \<not> ready s then (Inr None, emit (Send StillLoading) s)
      else
        (case registry env plugin_name of
           Some details \<Rightarrow>
             (case split_repository (repository details) of
                Inl e \<Rightarrow> (Inl e, s)
              | Inr (u, r) \<Rightarrow>
                  if check_version \<and>
                     (case bot_version details of
                        None \<Rightarrow> False
                      | Some v \<Rightarrow> v \<noteq> [] \<and> version_too_low env v)
                  then (Inr None, emit (Send VersionTooLow) s)
                  else (Inr (Some (Plugin u r plugin_name (reg_branch details))), s))
         | None \<Rightarrow>
             (case from_string plugin_name False of
                Inl e \<Rightarrow> (Inr None, emit (Send InvalidName) s)
              | Inr plugin \<Rightarrow> (Inr (Some plugin), s))))"

section \<open>The commands \<open>add\<close>, \<open>remove\<close> and \<open>update\<close>\<close>

text \<open>The replies \<open>DownloadFailed\<close> and \<open>LoadFailed\<close> carry the same text in the source; they
  are kept apart here to tell the two \<open>except\<close> branches from each other.\<close>

definition plugins_add :: "env \<Rightarrow> bot \<Rightarrow> string \<Rightarrow> (exn + unit) \<times> bot" where
  "plugins_add env s plugin_name =
     (case parse_user_input env s plugin_name True of
        (Inl e, s1) \<Rightarrow> (Inl e, s1)
      | (Inr None, s1) \<Rightarrow> (Inr (), s1)
      | (Inr (Some plugin), s1) \<Rightarrow>
          if str plugin \<in> set (config_plugins s1) then (Inr (), emit (Send AlreadyInstalled) s1)
          else if name plugin \<in> cogs env then (Inr (), emit (Send NameConflict) s1)
          else
            (case download_plugin env (emit (Send (Downloading (link plugin))) s1) plugin True of
               (Inl e, s2) \<Rightarrow> (Inr (), emit (Edit DownloadFailed) s2)
             | (Inr _, s2) \<Rightarrow>
                 (case config_update env (s2\<lparr>config_plugins := config_plugins s2 @ [str plugin]\<rparr>) of
                    (Inl e, s3) \<Rightarrow> (Inl e, s3)
                  | (Inr _, s3) \<Rightarrow>
                      if enable_plugins env then
                        (case load_plugin env s3 plugin of
                           (Inl e, s4) \<Rightarrow> (Inr (), emit (Edit LoadFailed) s4)
                         | (Inr _, s4) \<Rightarrow> (Inr (), emit (Edit InstalledOk) s4))
                      else (Inr (), emit (Edit InstalledDisabled) s3))))"

text \<open>The \<open>try\<close> block of \<open>remove\<close>: \<open>ExtensionNotLoaded\<close> from the unload and \<open>KeyError\<close> from
  \<open>set.remove\<close> are both caught; after the first, the set is not touched.\<close>

definition unload_and_forget :: "bot \<Rightarrow> plugin \<Rightarrow> bot" where
  "unload_and_forget s plugin =
     (case unload_extension s (ext_string plugin) of
        (Inl e, s1) \<Rightarrow> s1
      | (Inr _, s1) \<Rightarrow> s1\<lparr>loaded_plugins := loaded_plugins s1 - {plugin}\<rparr>)"

text \<open>The two \<open>rmdir\<close> calls under one \<open>try\<close>: the second runs only if the first succeeds.\<close>

definition remove_empty_parents :: "filesystem \<Rightarrow> path \<Rightarrow> filesystem" where
  "remove_empty_parents fs ap =
     (case rmdir fs (parent ap) of
        Inl e \<Rightarrow> fs
      | Inr fs1 \<Rightarrow> (case rmdir fs1 (parent (parent ap)) of Inl e \<Rightarrow> fs1 | Inr fs2 \<Rightarrow> fs2))"

definition plugins_remove :: "env \<Rightarrow> bot \<Rightarrow> string \<Rightarrow> (exn + unit) \<times> bot" where
  "plugins_remove env s plugin_name =
     (case parse_user_input env s plugin_name False of
        (Inl e, s1) \<Rightarrow> (Inl e, s1)
      | (Inr None, s1) \<Rightarrow> (Inr (), s1)
      | (Inr (Some plugin), s1) \<Rightarrow>
          if str plugin \<notin> set (config_plugins s1) then (Inr (), emit (Send NotInstalled) s1)
          else
            (let s2 = (if enable_plugins env then unload_and_forget s1 plugin else s1);
                 s3 = s2\<lparr>config_plugins := remove1 (str plugin) (config_plugins s2)\<rparr> in
             case config_update env s3 of
               (Inl e, s4) \<Rightarrow> (Inl e, s4)
             | (Inr _, s4) \<Rightarrow>
                 (let ap = abs_path (base_dir env) plugin;
                      fs1 = rmtree (files s4) ap;
                      fs2 = remove_empty_parents fs1 ap in
                  (Inr (), emit (Send Removed) (s4\<lparr>files := fs2\<rparr>)))))"

definition update_plugin :: "env \<Rightarrow> bot \<Rightarrow> string \<Rightarrow> (exn + unit) \<times> bot" where
  "update_plugin env s plugin_name =
     (case parse_user_input env s plugin_name True of
        (Inl e, s1) \<Rightarrow> (Inl e, s1)
      | (Inr None, s1) \<Rightarrow> (Inr (), s1)
      | (Inr (Some plugin), s1) \<Rightarrow>
          if str plugin \<notin> set (config_plugins s1) then (Inr (), emit (Send NotInstalled) s1)
          else
            (case download_plugin env s1 plugin True of
               (Inl e, s2) \<Rightarrow> (Inl e, s2)
             | (Inr _, s2) \<Rightarrow>
                 (case (if enable_plugins env
                        then load_plugin env (snd (unload_extension s2 (ext_string plugin))) plugin
                        else (Inr (), s2)) of
                    (Inl e, s3) \<Rightarrow> (Inl e, s3)
                  | (Inr _, s3) \<Rightarrow> (Inr (), emit (Send (Updated (name plugin))) s3))))"

text \<open>The \<open>for\<close> loop of \<open>plugins_update\<close> over \<open>bot.config["plugins"]\<close>; \<open>update_plugin\<close>
  never changes that list, so the loop sees the list it started with. An exception
  leaves the loop.\<close>

fun update_each :: "env \<Rightarrow> bot \<Rightarrow> string list \<Rightarrow> (exn + unit) \<times> bot" where
  "update_each env s [] = (Inr (), s)"
| "update_each env s (plugin_name # rest) =
     (case update_plugin env s plugin_name of
        (Inl e, s1) \<Rightarrow> (Inl e, s1)
      | (Inr _, s1) \<Rightarrow> update_each env s1 rest)"

definition plugins_update :: "env \<Rightarrow> bot \<Rightarrow> string option \<Rightarrow> (exn + unit) \<times> bot" where
  "plugins_update env s plugin_name =
     (case plugin_name of
        None \<Rightarrow> update_each env s (config_plugins s)
      | Some n \<Rightarrow> update_plugin env s n)"

section \<open>\<open>Plugins.__init__\<close> and \<open>Plugins.initial_load_plugins\<close>\<close>

text \<open>The second \<open>try\<close> of the loop body: download (not forced) and load, every exception
  caught.\<close>

definition try_load :: "env \<Rightarrow> bot \<Rightarrow> plugin \<Rightarrow> bot" where
  "try_load env s plugin =
     (case download_plugin env s plugin False of
        (Inl e, s1) \<Rightarrow> s1
      | (Inr _, s1) \<Rightarrow> snd (load_plugin env s1 plugin))"

text \<open>The loop over the copy \<open>list(bot.config["plugins"])\<close>. \<open>list.remove\<close> raises
  \<open>ValueError\<close> when the name is not in the list; nothing in the loop catches that.\<close>

fun load_entries :: "env \<Rightarrow> bot \<Rightarrow> string list \<Rightarrow> (exn + unit) \<times> bot" where
  "load_entries env s [] = (Inr (), s)"
| "load_entries env s (plugin_name # rest) =
     (case from_string plugin_name True of
        Inr plugin \<Rightarrow> load_entries env (try_load env s plugin) rest
      | Inl _ \<Rightarrow>
          if plugin_name \<notin> set (config_plugins s) then (Inl ValueError, s)
          else
            (let s1 = s\<lparr>config_plugins := remove1 plugin_name (config_plugins s)\<rparr> in
             case from_string plugin_name False of
               Inl _ \<Rightarrow> load_entries env s1 rest
             | Inr plugin \<Rightarrow>
                 load_entries env
                   (try_load env (s1\<lparr>config_plugins := config_plugins s1 @ [str plugin]\<rparr>) plugin)
                   rest))"

definition initial_load_plugins :: "env \<Rightarrow> bot \<Rightarrow> (exn + unit) \<times> bot" where
  "initial_load_plugins env s =
     (case load_entries env s (config_plugins s) of
        (Inl e, s1) \<Rightarrow> (Inl e, s1)
      | (Inr _, s1) \<Rightarrow> config_update env (emit ReadySet (s1\<lparr>ready := True\<rparr>)))"

text \<open>
  \<open>__init__\<close> empties the loaded set, creates the event unset and schedules the tasks:
  always \<open>populate_registry\<close>, and \<open>initial_load_plugins\<close> only when the flag is set.
\<close>

datatype task = PopulateRegistry | InitialLoadPlugins

definition Plugins_init :: "bool \<Rightarrow> bot \<Rightarrow> bot \<times> task list" where
  "Plugins_init enable s =
     (s\<lparr>loaded_plugins := {}, ready := False\<rparr>,
      PopulateRegistry # (if enable then [InitialLoadPlugins] else []))"

text \<open>Commands arrive one after another; the command framework catches what a command
  raises, so the next command starts from the state the previous one left.\<close>

datatype command = Add string | Remove string | Update "string option"

definition run_command :: "env \<Rightarrow> bot \<Rightarrow> command \<Rightarrow> (exn + unit) \<times> bot" where
  "run_command env s c =
     (case c of
        Add n \<Rightarrow> plugins_add env s n
      | Remove n \<Rightarrow> plugins_remove env s n
      | Update n \<Rightarrow> plugins_update env s n)"

fun run_commands :: "bot \<Rightarrow> (env \<times> command) list \<Rightarrow> bot" where
  "run_commands s [] = s"
| "run_commands s ((env, c) # cs) = run_commands (snd (run_command env s c)) cs"

section \<open>Concrete inputs\<close>

text \<open>The archive of the specification's example: one entry of a sibling plugin, one of
  the plugin \<open>target\<close>; the install directory of \<open>u/r/target@master\<close> under \<open>/bot\<close>; and the
  file system after extraction into an empty one.\<close>

definition example_archive :: "zip_info list" where
  "example_archive =
     [\<lparr>filename = ''repo-branch/other/file.x'', data = ''O''\<rparr>,
      \<lparr>filename = ''repo-branch/target/target.x'', data = ''T''\<rparr>]"

definition example_dest :: path where
  "example_dest = [''/'', ''bot'', ''plugins'', ''u'', ''r'', ''target-master'']"

definition example_installed :: filesystem where
  "example_installed =
     [([''/'', ''bot'', ''plugins'', ''u'', ''r'', ''target-master'', ''target.x''], File ''T''),
      ([''/''], Dir), ([''/'', ''bot''], Dir),
      ([''/'', ''bot'', ''plugins''], Dir),
      ([''/'', ''bot'', ''plugins'', ''u''], Dir),
      ([''/'', ''bot'', ''plugins'', ''u'', ''r''], Dir),
      ([''/'', ''bot'', ''plugins'', ''u'', ''r'', ''target-master''], Dir)]"

text \<open>An archive whose one entry belongs to the plugin \<open>other\<close> by its second segment and
  leaves the install directory of \<open>other\<close> through \<open>..\<close>; and that install directory.\<close>

definition dotdot_archive :: "zip_info list" where
  "dotdot_archive =
     [\<lparr>filename = ''repo-branch/other/../target-master/target.x'', data = ''X''\<rparr>]"

definition other_dest :: path where
  "other_dest = [''/'', ''bot'', ''plugins'', ''u'', ''r'', ''other-master'']"

section \<open>Concrete inputs for the commands\<close>

text \<open>An environment in which plugins are enabled, the registry is empty, every download
  fails and nothing else goes wrong; and a bot that is ready, with one plugin in its
  list.\<close>

definition offline_env :: env where
  "offline_env =
     \<lparr>base_dir = [''/'', ''bot''], enable_plugins = True, registry = (\<lambda>n. None), cogs = {},
      http_get = (\<lambda>u. None), zip_infolist = (\<lambda>b. None), pip_stderr = (\<lambda>p. False),
      extension_error = (\<lambda>e. None), version_too_low = (\<lambda>v. False), config_update_ok = True\<rparr>"

definition ready_bot :: bot where
  "ready_bot =
     \<lparr>config_plugins = [''a/b/c@master''], stored_plugins = [''a/b/c@master''],
      files = [([''/'', ''bot'', ''plugins'', ''a'', ''b'', ''c-master''], Dir)],
      loaded_plugins = {}, extensions = {}, ready = True, trace = []\<rparr>"

text \<open>An environment in which the archive of \<open>u/r\<close> at \<open>master\<close> can be downloaded and holds
  the example entries.\<close>

definition online_env :: env where
  "online_env =
     offline_env
       \<lparr>http_get := (\<lambda>u. if u = ''https://github.com/u/r/archive/master.zip''
                          then Some ''PK'' else None),
        zip_infolist := (\<lambda>b. if b = ''PK'' then Some example_archive else None)\<rparr>"



section \<open>Observing the network\<close>

text \<open>The URLs requested so far, in order: one entry for every \<open>session.get\<close>.\<close>

fun requested :: "event \<Rightarrow> string list" where
  "requested (HttpGet u) = [u]"
| "requested _ = []"

definition network_requests :: "bot \<Rightarrow> string list" where
  "network_requests s = concat (map requested (trace s))"

section \<open>Observing the order of persisting and opening the gate\<close>

text \<open>The events of downloading and loading one plugin: requests, cache reads and
  \<open>pip\<close> runs, neither the setting of the event nor an update of the store.\<close>

fun loading_event :: "event \<Rightarrow> bool" where
  "loading_event (HttpGet u) = True"
| "loading_event (CacheRead p) = True"
| "loading_event (PipInstall p) = True"
| "loading_event e = False"

text \<open>The order the specification asks for, read off the effects: the store is updated
  before the event is set, that is, the first of these two kinds of effect is an
  update.\<close>

fun persist_precedes_gate :: "event list \<Rightarrow> bool" where
  "persist_precedes_gate [] = True"
| "persist_precedes_gate (ConfigUpdate xs # es) = True"
| "persist_precedes_gate (ReadySet # es) = False"
| "persist_precedes_gate (e # es) = persist_precedes_gate es"

text \<open>A bot at startup whose stored list holds one legacy entry.\<close>

definition legacy_bot :: bot where
  "legacy_bot =
     \<lparr>config_plugins = [''a/b/c''], stored_plugins = [''a/b/c''], files = [],
      loaded_plugins = {}, extensions = {}, ready = False, trace = []\<rparr>"

section \<open>Concrete inputs for update and removal\<close>

text \<open>An archive of the repository \<open>u/r\<close> with two plugins, \<open>p\<close> (with a requirements file)
  and \<open>q\<close>; an environment in which it downloads and everything works; one in which
  \<open>pip\<close> reports errors; one in which extensions fail to load; a ready bot with both
  plugins in its list; and a bot at startup with \<open>q\<close> in its list.\<close>

definition plugin_archive :: "zip_info list" where
  "plugin_archive =
     [\<lparr>filename = ''r-master/'', data = ''''\<rparr>,
      \<lparr>filename = ''r-master/p/p.py'', data = ''P''\<rparr>,
      \<lparr>filename = ''r-master/p/requirements.txt'', data = ''R''\<rparr>,
      \<lparr>filename = ''r-master/q/q.py'', data = ''Q''\<rparr>]"

definition good_env :: env where
  "good_env =
     offline_env
       \<lparr>http_get := (\<lambda>u. if u = ''https://github.com/u/r/archive/master.zip''
                          then Some ''PK'' else None),
        zip_infolist := (\<lambda>b. if b = ''PK'' then Some plugin_archive else None)\<rparr>"

definition pip_failing_env :: env where
  "pip_failing_env = good_env\<lparr>pip_stderr := (\<lambda>p. True)\<rparr>"

definition broken_env :: env where
  "broken_env = good_env\<lparr>extension_error := (\<lambda>e. Some ExtensionFailed)\<rparr>"

definition two_plugin_bot :: bot where
  "two_plugin_bot =
     \<lparr>config_plugins = [''u/r/p@master'', ''u/r/q@master''],
      stored_plugins = [''u/r/p@master'', ''u/r/q@master''],
      files = [], loaded_plugins = {}, extensions = {}, ready = True, trace = []\<rparr>"

definition startup_bot :: bot where
  "startup_bot =
     \<lparr>config_plugins = [''u/r/q@master''], stored_plugins = [''u/r/q@master''],
      files = [], loaded_plugins = {}, extensions = {}, ready = False, trace = []\<rparr>"

section \<open>Properties of the parser\<close>

lemma lazy_group_sound:
  "lazy_group k acc s = Some m \<Longrightarrow>
     \<exists>pre rest. pre \<noteq> [] \<and> newline \<notin> set pre \<and> s = pre @ rest \<and> k (acc @ pre) rest = Some m"
proof (induction s arbitrary: acc)
  case Nil
  then show ?case by simp
next
  case (Cons c cs)
  from Cons.prems have c: "c \<noteq> newline"
    by (auto split: if_splits)
  show ?case
  proof (cases "k (acc @ [c]) cs")
    case (Some m')
    with Cons.prems c have "m' = m" by simp
    with Some c have "[c] \<noteq> [] \<and> newline \<notin> set [c] \<and> c # cs = [c] @ cs \<and> k (acc @ [c]) cs = Some m"
      by auto
    then show ?thesis by blast
  next
    case None
    with Cons.prems c have "lazy_group k (acc @ [c]) cs = Some m" by simp
    from Cons.IH[OF this] obtain pre rest where
      h: "pre \<noteq> []" "newline \<notin> set pre" "cs = pre @ rest" "k ((acc @ [c]) @ pre) rest = Some m"
      by blast
    with c have "c # pre \<noteq> [] \<and> newline \<notin> set (c # pre) \<and> c # cs = (c # pre) @ rest
        \<and> k (acc @ c # pre) rest = Some m"
      by auto
    then show ?thesis by blast
  qed
qed

lemma lit_sound: "lit d k s = Some m \<Longrightarrow> \<exists>rest. s = d # rest \<and> k rest = Some m"
  by (auto simp: lit_def split: list.splits if_splits)

text \<open>A lazy group followed by a literal stops at the first occurrence of the literal
  when the rest of the pattern matches there.\<close>

lemma lazy_group_lit_first:
  assumes "seg \<noteq> []" "d \<notin> set seg" "newline \<notin> set seg" "k (acc @ seg) rest = Some m"
  shows "lazy_group (\<lambda>g. lit d (k g)) acc (seg @ d # rest) = Some m"
  using assms
proof (induction seg arbitrary: acc)
  case Nil
  then show ?case by simp
next
  case (Cons c cs)
  note prems = Cons.prems and IH = Cons.IH
  from prems have c: "c \<noteq> newline" by auto
  show ?case
  proof (cases cs)
    case Nil
    with prems c show ?thesis by (simp add: lit_def)
  next
    case (Cons c' cs')
    with prems have none: "lit d (k (acc @ [c])) (cs @ d # rest) = None"
      by (auto simp: lit_def)
    have "lazy_group (\<lambda>g. lit d (k g)) (acc @ [c]) (cs @ d # rest) = Some m"
      using prems IH[of "acc @ [c]"] Cons by simp
    with none c show ?thesis by simp
  qed
qed

text \<open>A lazy group followed by \<open>$\<close> takes the whole remaining text when that text has no
  line feed.\<close>

lemma lazy_group_to_end:
  assumes "seg \<noteq> []" "newline \<notin> set seg"
  shows "lazy_group (\<lambda>g r. if at_end r then Some (f g) else None) acc seg = Some (f (acc @ seg))"
  using assms
proof (induction seg arbitrary: acc)
  case Nil
  then show ?case by simp
next
  case (Cons c cs)
  note prems = Cons.prems and IH = Cons.IH
  from prems have c: "c \<noteq> newline" by auto
  show ?case
  proof (cases cs)
    case Nil
    with c show ?thesis by (simp add: at_end_def)
  next
    case (Cons c' cs')
    with prems have ne: "\<not> at_end cs" by (auto simp: at_end_def)
    have "lazy_group (\<lambda>g r. if at_end r then Some (f g) else None) (acc @ [c]) cs
            = Some (f ((acc @ [c]) @ cs))"
      using prems IH[of "acc @ [c]"] Cons by simp
    with ne c show ?thesis by simp
  qed
qed


text \<open>The general form: the group takes the first text after which the rest matches.\<close>

lemma lazy_group_first:
  assumes "seg \<noteq> []" "newline \<notin> set seg" "k (acc @ seg) rest = Some m"
    and "\<And>pre suf. pre \<noteq> [] \<Longrightarrow> suf \<noteq> [] \<Longrightarrow> seg = pre @ suf \<Longrightarrow> k (acc @ pre) (suf @ rest) = None"
  shows "lazy_group k acc (seg @ rest) = Some m"
  using assms
proof (induction seg arbitrary: acc)
  case Nil
  then show ?case by simp
next
  case (Cons c cs)
  note prems = Cons.prems and IH = Cons.IH
  from prems(2) have c: "c \<noteq> newline" by auto
  show ?case
  proof (cases cs)
    case Nil
    with prems(3) c show ?thesis by simp
  next
    case (Cons c' cs')
    have none: "k (acc @ [c]) (cs @ rest) = None"
      using prems(4)[of "[c]" cs] Cons by simp
    have "lazy_group k (acc @ [c]) (cs @ rest) = Some m"
    proof (rule IH)
      show "cs \<noteq> []" using Cons by simp
      show "newline \<notin> set cs" using prems(2) by simp
      show "k ((acc @ [c]) @ cs) rest = Some m" using prems(3) by simp
      fix pre suf
      assume "pre \<noteq> []" "suf \<noteq> []" "cs = pre @ suf"
      then show "k ((acc @ [c]) @ pre) (suf @ rest) = None"
        using prems(4)[of "c # pre" suf] by simp
    qed
    with none c show ?thesis by simp
  qed
qed


lemma match_strict_sound:
  assumes "match_strict s = Some (g1, g2, g3, g4)"
  shows "\<exists>b tail. g4 = Some b \<and> g1 \<noteq> [] \<and> g2 \<noteq> [] \<and> g3 \<noteq> [] \<and> b \<noteq> [] \<and> at_end tail \<and>
           s = g1 @ CHR ''/'' # g2 @ CHR ''/'' # g3 @ CHR ''@'' # b @ tail"
proof -
  from lazy_group_sound[OF assms[unfolded match_strict_def]]
  obtain p1 r1 where 1: "p1 \<noteq> []" "s = p1 @ r1"
    and k1: "lit CHR ''/''
       (lazy_group (\<lambda>g2. lit CHR ''/''
         (lazy_group (\<lambda>g3. lit CHR ''@''
           (lazy_group (\<lambda>g4 r. if at_end r then Some (p1, g2, g3, Some g4) else None) []))
          []))
        []) r1 = Some (g1, g2, g3, g4)"
    by auto
  from lit_sound[OF k1] obtain r1' where r1: "r1 = CHR ''/'' # r1'"
    and k1': "lazy_group (\<lambda>g2. lit CHR ''/''
         (lazy_group (\<lambda>g3. lit CHR ''@''
           (lazy_group (\<lambda>g4 r. if at_end r then Some (p1, g2, g3, Some g4) else None) []))
          [])) [] r1' = Some (g1, g2, g3, g4)"
    by auto
  from lazy_group_sound[OF k1'] obtain p2 r2 where 2: "p2 \<noteq> []" "r1' = p2 @ r2"
    and k2: "lit CHR ''/''
         (lazy_group (\<lambda>g3. lit CHR ''@''
           (lazy_group (\<lambda>g4 r. if at_end r then Some (p1, p2, g3, Some g4) else None) []))
          []) r2 = Some (g1, g2, g3, g4)"
    by auto
  from lit_sound[OF k2] obtain r2' where r2: "r2 = CHR ''/'' # r2'"
    and k2': "lazy_group (\<lambda>g3. lit CHR ''@''
           (lazy_group (\<lambda>g4 r. if at_end r then Some (p1, p2, g3, Some g4) else None) []))
          [] r2' = Some (g1, g2, g3, g4)"
    by auto
  from lazy_group_sound[OF k2'] obtain p3 r3 where 3: "p3 \<noteq> []" "r2' = p3 @ r3"
    and k3: "lit CHR ''@''
           (lazy_group (\<lambda>g4 r. if at_end r then Some (p1, p2, p3, Some g4) else None) [])
           r3 = Some (g1, g2, g3, g4)"
    by auto
  from lit_sound[OF k3] obtain r3' where r3: "r3 = CHR ''@'' # r3'"
    and k3': "lazy_group (\<lambda>g4 r. if at_end r then Some (p1, p2, p3, Some g4) else None) []
           r3' = Some (g1, g2, g3, g4)"
    by auto
  from lazy_group_sound[OF k3'] obtain p4 r4 where 4: "p4 \<noteq> []" "r3' = p4 @ r4"
    and k4: "(if at_end r4 then Some (p1, p2, p3, Some p4) else None)
               = Some (g1, g2, g3, g4)"
    by auto
  from k4 have e: "at_end r4" "g1 = p1" "g2 = p2" "g3 = p3" "g4 = Some p4"
    by (auto split: if_splits)
  have "s = g1 @ CHR ''/'' # g2 @ CHR ''/'' # g3 @ CHR ''@'' # p4 @ r4"
    using 1 2 3 4 r1 r2 r3 e by simp
  with e 1 2 3 4 show ?thesis by blast
qed

lemma match_lenient_sound:
  assumes "match_lenient s = Some (g1, g2, g3, g4)"
  shows "\<exists>tail. g1 \<noteq> [] \<and> g2 \<noteq> [] \<and> g3 \<noteq> [] \<and> s = g1 @ CHR ''/'' # g2 @ CHR ''/'' # g3 @ tail"
proof -
  from lazy_group_sound[OF assms[unfolded match_lenient_def]]
  obtain p1 r1 where 1: "p1 \<noteq> []" "s = p1 @ r1"
    and k1: "lit CHR ''/''
       (lazy_group (\<lambda>g2. lit CHR ''/''
         (lazy_group (\<lambda>g3 r3.
            (case lit CHR ''@''
                    (lazy_group (\<lambda>g4 r. if at_end r then Some (p1, g2, g3, Some g4) else None) [])
                    r3 of
               Some m \<Rightarrow> Some m
             | None \<Rightarrow> if at_end r3 then Some (p1, g2, g3, None) else None))
          []))
        []) r1 = Some (g1, g2, g3, g4)"
    by auto
  from lit_sound[OF k1] obtain r1' where r1: "r1 = CHR ''/'' # r1'"
    and k1': "lazy_group (\<lambda>g2. lit CHR ''/''
         (lazy_group (\<lambda>g3 r3.
            (case lit CHR ''@''
                    (lazy_group (\<lambda>g4 r. if at_end r then Some (p1, g2, g3, Some g4) else None) [])
                    r3 of
               Some m \<Rightarrow> Some m
             | None \<Rightarrow> if at_end r3 then Some (p1, g2, g3, None) else None))
          [])) [] r1' = Some (g1, g2, g3, g4)"
    by auto
  from lazy_group_sound[OF k1'] obtain p2 r2 where 2: "p2 \<noteq> []" "r1' = p2 @ r2"
    and k2: "lit CHR ''/''
         (lazy_group (\<lambda>g3 r3.
            (case lit CHR ''@''
                    (lazy_group (\<lambda>g4 r. if at_end r then Some (p1, p2, g3, Some g4) else None) [])
                    r3 of
               Some m \<Rightarrow> Some m
             | None \<Rightarrow> if at_end r3 then Some (p1, p2, g3, None) else None))
          []) r2 = Some (g1, g2, g3, g4)"
    by auto
  from lit_sound[OF k2] obtain r2' where r2: "r2 = CHR ''/'' # r2'"
    and k2': "lazy_group (\<lambda>g3 r3.
            (case lit CHR ''@''
                    (lazy_group (\<lambda>g4 r. if at_end r then Some (p1, p2, g3, Some g4) else None) [])
                    r3 of
               Some m \<Rightarrow> Some m
             | None \<Rightarrow> if at_end r3 then Some (p1, p2, g3, None) else None))
          [] r2' = Some (g1, g2, g3, g4)"
    by auto
  from lazy_group_sound[OF k2'] obtain p3 r3 where 3: "p3 \<noteq> []" "r2' = p3 @ r3"
    and k3: "(case lit CHR ''@''
                    (lazy_group (\<lambda>g4 r. if at_end r then Some (p1, p2, p3, Some g4) else None) [])
                    r3 of
               Some m \<Rightarrow> Some m
             | None \<Rightarrow> if at_end r3 then Some (p1, p2, p3, None) else None)
           = Some (g1, g2, g3, g4)"
    by auto
  have e: "g1 = p1 \<and> g2 = p2 \<and> g3 = p3"
  proof (cases "lit CHR ''@''
                    (lazy_group (\<lambda>g4 r. if at_end r then Some (p1, p2, p3, Some g4) else None) [])
                    r3")
    case None
    with k3 show ?thesis by (auto split: if_splits)
  next
    case (Some m)
    with k3 have m: "m = (g1, g2, g3, g4)" by simp
    from lit_sound[OF Some] obtain r3' where
      "lazy_group (\<lambda>g4 r. if at_end r then Some (p1, p2, p3, Some g4) else None) [] r3' = Some m"
      by auto
    from lazy_group_sound[OF this] m show ?thesis
      by (auto split: if_splits)
  qed
  have "s = g1 @ CHR ''/'' # g2 @ CHR ''/'' # g3 @ r3"
    using 1 2 3 r1 r2 e by simp
  with e 1 2 3 show ?thesis by blast
qed


lemma lazy_group_lit_first0:
  assumes "seg \<noteq> []" "d \<notin> set seg" "newline \<notin> set seg" "k seg rest = Some m"
  shows "lazy_group (\<lambda>g. lit d (k g)) [] (seg @ d # rest) = Some m"
  using lazy_group_lit_first[of seg d k "[]" rest m] assms by simp

lemma lazy_group_to_end0:
  assumes "seg \<noteq> []" "newline \<notin> set seg"
  shows "lazy_group (\<lambda>g r. if at_end r then Some (f g) else None) [] seg = Some (f seg)"
  using lazy_group_to_end[of seg f "[]"] assms by simp

lemma lazy_group_first0:
  assumes "seg \<noteq> []" "newline \<notin> set seg" "k seg rest = Some m"
    and "\<And>pre suf. pre \<noteq> [] \<Longrightarrow> suf \<noteq> [] \<Longrightarrow> seg = pre @ suf \<Longrightarrow> k pre (suf @ rest) = None"
  shows "lazy_group k [] (seg @ rest) = Some m"
  using lazy_group_first[of seg k "[]" rest m] assms by simp

lemma lenient_plain:
  assumes "valid_field u" "valid_field r" "valid_field n"
  shows "match_lenient (u @ ''/'' @ r @ ''/'' @ n) = Some (u, r, n, None)"
proof -
  let ?k3 = "\<lambda>g1 g2 g3 r3.
            (case lit CHR ''@''
                    (lazy_group (\<lambda>g4 r. if at_end r then Some (g1, g2, g3, Some g4) else None) [])
                    r3 of
               Some m \<Rightarrow> Some m
             | None \<Rightarrow> if at_end r3 then Some (g1, g2, g3, None) else None)"
  have 3: "lazy_group (?k3 u r) [] (n @ []) = Some (u, r, n, None)"
  proof (rule lazy_group_first0)
    show "n \<noteq> []" "newline \<notin> set n" using assms by (auto simp: valid_field_def)
    show "?k3 u r n [] = Some (u, r, n, None)"
      by (simp add: lit_def at_end_def)
    fix pre suf assume "pre \<noteq> []" "suf \<noteq> []" "n = pre @ suf"
    then obtain c cs where "suf = c # cs" "c \<noteq> CHR ''@''" "c \<noteq> newline"
      using assms(3) by (cases suf) (auto simp: valid_field_def)
    then show "?k3 u r pre (suf @ []) = None"
      by (simp add: lit_def at_end_def)
  qed
  have 2: "lazy_group (\<lambda>g2. lit CHR ''/'' (lazy_group (?k3 u g2) [])) [] (r @ CHR ''/'' # n)
             = Some (u, r, n, None)"
    by (rule lazy_group_lit_first0) (use assms 3 in \<open>auto simp: valid_field_def\<close>)
  have "lazy_group (\<lambda>g1. lit CHR ''/'' (lazy_group (\<lambda>g2. lit CHR ''/'' (lazy_group (?k3 g1 g2) [])) []))
           [] (u @ CHR ''/'' # r @ CHR ''/'' # n) = Some (u, r, n, None)"
    by (rule lazy_group_lit_first0) (use assms 2 in \<open>auto simp: valid_field_def\<close>)
  then show ?thesis by (simp add: match_lenient_def)
qed

lemma lenient_branch:
  assumes "valid_field u" "valid_field r" "valid_field n" "valid_branch b"
  shows "match_lenient (u @ ''/'' @ r @ ''/'' @ n @ ''@'' @ b) = Some (u, r, n, Some b)"
proof -
  let ?k3 = "\<lambda>g1 g2 g3 r3.
            (case lit CHR ''@''
                    (lazy_group (\<lambda>g4 r. if at_end r then Some (g1, g2, g3, Some g4) else None) [])
                    r3 of
               Some m \<Rightarrow> Some m
             | None \<Rightarrow> if at_end r3 then Some (g1, g2, g3, None) else None)"
  have 4: "lazy_group (\<lambda>g4 r'. if at_end r' then Some (u, r, n, Some g4) else None) [] b
            = Some (u, r, n, Some b)"
    by (rule lazy_group_to_end0) (use assms in \<open>auto simp: valid_branch_def\<close>)
  have 3: "lazy_group (?k3 u r) [] (n @ CHR ''@'' # b) = Some (u, r, n, Some b)"
  proof (rule lazy_group_first0)
    show "n \<noteq> []" "newline \<notin> set n" using assms by (auto simp: valid_field_def)
    show "?k3 u r n (CHR ''@'' # b) = Some (u, r, n, Some b)"
      using 4 by (simp add: lit_def)
    fix pre suf assume "pre \<noteq> []" "suf \<noteq> []" "n = pre @ suf"
    then obtain c cs where "suf = c # cs" "c \<noteq> CHR ''@''" "c \<noteq> newline"
      using assms(3) by (cases suf) (auto simp: valid_field_def)
    then show "?k3 u r pre (suf @ CHR ''@'' # b) = None"
      by (simp add: lit_def at_end_def)
  qed
  have 2: "lazy_group (\<lambda>g2. lit CHR ''/'' (lazy_group (?k3 u g2) [])) [] (r @ CHR ''/'' # n @ CHR ''@'' # b)
             = Some (u, r, n, Some b)"
    by (rule lazy_group_lit_first0) (use assms 3 in \<open>auto simp: valid_field_def\<close>)
  have "lazy_group (\<lambda>g1. lit CHR ''/'' (lazy_group (\<lambda>g2. lit CHR ''/'' (lazy_group (?k3 g1 g2) [])) []))
           [] (u @ CHR ''/'' # r @ CHR ''/'' # n @ CHR ''@'' # b) = Some (u, r, n, Some b)"
    by (rule lazy_group_lit_first0) (use assms 2 in \<open>auto simp: valid_field_def\<close>)
  then show ?thesis by (simp add: match_lenient_def)
qed

lemma strict_branch:
  assumes "valid_field u" "valid_field r" "valid_field n" "valid_branch b"
  shows "match_strict (u @ ''/'' @ r @ ''/'' @ n @ ''@'' @ b) = Some (u, r, n, Some b)"
proof -
  have 4: "lazy_group (\<lambda>g4 r'. if at_end r' then Some (u, r, n, Some g4) else None) [] b
            = Some (u, r, n, Some b)"
    by (rule lazy_group_to_end0) (use assms in \<open>auto simp: valid_branch_def\<close>)
  have 3: "lazy_group (\<lambda>g3. lit CHR ''@''
           (lazy_group (\<lambda>g4 r'. if at_end r' then Some (u, r, g3, Some g4) else None) [])) []
            (n @ CHR ''@'' # b) = Some (u, r, n, Some b)"
    by (rule lazy_group_lit_first0) (use assms 4 in \<open>auto simp: valid_field_def\<close>)
  have 2: "lazy_group (\<lambda>g2. lit CHR ''/'' (lazy_group (\<lambda>g3. lit CHR ''@''
           (lazy_group (\<lambda>g4 r'. if at_end r' then Some (u, g2, g3, Some g4) else None) [])) []))
            [] (r @ CHR ''/'' # n @ CHR ''@'' # b) = Some (u, r, n, Some b)"
    by (rule lazy_group_lit_first0) (use assms 3 in \<open>auto simp: valid_field_def\<close>)
  have "lazy_group (\<lambda>g1. lit CHR ''/'' (lazy_group (\<lambda>g2. lit CHR ''/'' (lazy_group (\<lambda>g3. lit CHR ''@''
           (lazy_group (\<lambda>g4 r'. if at_end r' then Some (g1, g2, g3, Some g4) else None) [])) [])) []))
            [] (u @ CHR ''/'' # r @ CHR ''/'' # n @ CHR ''@'' # b) = Some (u, r, n, Some b)"
    by (rule lazy_group_lit_first0) (use assms 2 in \<open>auto simp: valid_field_def\<close>)
  then show ?thesis by (simp add: match_strict_def)
qed

lemma strict_needs_at: "CHR ''@'' \<notin> set s \<Longrightarrow> match_strict s = None"
proof (rule ccontr)
  assume a: "CHR ''@'' \<notin> set s" and "match_strict s \<noteq> None"
  then obtain g1 g2 g3 g4 where "match_strict s = Some (g1, g2, g3, g4)"
    by (cases "match_strict s") auto
  from match_strict_sound[OF this] a show False by auto
qed

text \<open>
  C5. For fields \<open>u\<close>, \<open>r\<close>, \<open>n\<close> that are not empty and hold no \<open>/\<close>, \<open>@\<close> or line feed:
  the non-strict parse of \<open>u/r/n\<close> is the identity with branch \<open>master\<close>, the strict
  parse of \<open>u/r/n\<close> raises \<open>InvalidPluginError\<close>, and both parses of \<open>u/r/n@b\<close> give
  exactly the branch \<open>b\<close> (any non-empty text without line feed).
\<close>

theorem from_string_valid:
  assumes "valid_field u" "valid_field r" "valid_field n" "valid_branch b"
  shows "from_string (u @ ''/'' @ r @ ''/'' @ n) False
           = Inr \<lparr>user = u, repo = r, name = n, branch = ''master''\<rparr>
       \<and> from_string (u @ ''/'' @ r @ ''/'' @ n) True = Inl InvalidPluginError
       \<and> from_string (u @ ''/'' @ r @ ''/'' @ n @ ''@'' @ b) False
           = Inr \<lparr>user = u, repo = r, name = n, branch = b\<rparr>
       \<and> from_string (u @ ''/'' @ r @ ''/'' @ n @ ''@'' @ b) True
           = Inr \<lparr>user = u, repo = r, name = n, branch = b\<rparr>"
proof -
  have 1: "from_string (u @ ''/'' @ r @ ''/'' @ n) False
           = Inr \<lparr>user = u, repo = r, name = n, branch = ''master''\<rparr>"
    using lenient_plain[OF assms(1-3)] by (simp add: from_string_def Plugin_def)
  have "CHR ''@'' \<notin> set (u @ ''/'' @ r @ ''/'' @ n)"
    using assms by (auto simp: valid_field_def)
  from strict_needs_at[OF this]
  have 2: "from_string (u @ ''/'' @ r @ ''/'' @ n) True = Inl InvalidPluginError"
    by (simp add: from_string_def)
  have 3: "from_string (u @ ''/'' @ r @ ''/'' @ n @ ''@'' @ b) False
           = Inr \<lparr>user = u, repo = r, name = n, branch = b\<rparr>"
    using lenient_branch[OF assms] by (simp add: from_string_def Plugin_def)
  have 4: "from_string (u @ ''/'' @ r @ ''/'' @ n @ ''@'' @ b) True
           = Inr \<lparr>user = u, repo = r, name = n, branch = b\<rparr>"
    using strict_branch[OF assms] by (simp add: from_string_def Plugin_def)
  from 1 2 3 4 show ?thesis by blast
qed

theorem from_string_valid_witness:
  "valid_field ''kyb3r'' \<and> valid_field ''modmail-plugins'' \<and> valid_field ''tags''
   \<and> valid_branch ''dev/v2''
   \<and> from_string ''kyb3r/modmail-plugins/tags'' False
        = Inr \<lparr>user = ''kyb3r'', repo = ''modmail-plugins'', name = ''tags'', branch = ''master''\<rparr>
   \<and> from_string ''kyb3r/modmail-plugins/tags'' True = Inl InvalidPluginError
   \<and> from_string ''kyb3r/modmail-plugins/tags@dev/v2'' False
        = Inr \<lparr>user = ''kyb3r'', repo = ''modmail-plugins'', name = ''tags'', branch = ''dev/v2''\<rparr>
   \<and> from_string ''kyb3r/modmail-plugins/tags@dev/v2'' True
        = Inr \<lparr>user = ''kyb3r'', repo = ''modmail-plugins'', name = ''tags'', branch = ''dev/v2''\<rparr>"
proof -
  have h: "valid_field ''kyb3r''" "valid_field ''modmail-plugins''" "valid_field ''tags''"
    "valid_branch ''dev/v2''"
    by (simp_all add: valid_field_def valid_branch_def newline_def)
  from from_string_valid[OF h] h show ?thesis by simp
qed

text \<open>
  C6, as stated, fails: a text with a fourth \<open>/\<close>-separated segment is accepted by the
  non-strict pattern (the lazy groups may hold \<open>/\<close>), and so is a text whose branch after
  \<open>@\<close> is empty.
\<close>

theorem from_string_extra_segment_accepted:
  "from_string ''a/b/c/d'' False
     = Inr \<lparr>user = ''a'', repo = ''b'', name = ''c/d'', branch = ''master''\<rparr>
   \<and> from_string ''a/b/c/d'' False \<noteq> Inl InvalidPluginError
   \<and> from_string ''a/b/c@'' False
     = Inr \<lparr>user = ''a'', repo = ''b'', name = ''c@'', branch = ''master''\<rparr>"
  by (simp add: from_string_def match_lenient_def lit_def at_end_def newline_def Plugin_def)

lemma split_at_first:
  "d \<notin> set a \<Longrightarrow> d \<notin> set b \<Longrightarrow> a @ d # x = b @ d # y \<Longrightarrow> a = b \<and> x = y"
proof (induction a arbitrary: b)
  case Nil
  then show ?case by (cases b) auto
next
  case (Cons c a)
  then show ?case by (cases b) auto
qed

lemma three_fields_nonempty:
  assumes s: "f1 @ CHR ''/'' # f2 @ CHR ''/'' # f3 = g1 @ CHR ''/'' # g2 @ CHR ''/'' # g3 @ t"
    and f: "CHR ''/'' \<notin> set f1" "CHR ''/'' \<notin> set f2" "CHR ''/'' \<notin> set f3"
    and g: "g1 \<noteq> []" "g2 \<noteq> []" "g3 \<noteq> []"
  shows "f1 \<noteq> [] \<and> f2 \<noteq> [] \<and> f3 \<noteq> []"
proof -
  let ?n = "\<lambda>x. length (filter ((=) CHR ''/'') x)"
  have "filter ((=) CHR ''/'') f1 = []" "filter ((=) CHR ''/'') f2 = []"
    "filter ((=) CHR ''/'') f3 = []"
    using f by (auto simp: filter_empty_conv)
  then have "?n (f1 @ CHR ''/'' # f2 @ CHR ''/'' # f3) = 2"
    by simp
  with s have "?n (g1 @ CHR ''/'' # g2 @ CHR ''/'' # g3 @ t) = 2" by simp
  then have "?n g1 = 0 \<and> ?n g2 = 0 \<and> ?n g3 = 0 \<and> ?n t = 0" by simp
  then have g': "CHR ''/'' \<notin> set g1" "CHR ''/'' \<notin> set g2" "CHR ''/'' \<notin> set (g3 @ t)"
    by (auto simp: filter_empty_conv)
  from split_at_first[OF f(1) g'(1) s] have 1: "f1 = g1"
    and r: "f2 @ CHR ''/'' # f3 = g2 @ CHR ''/'' # g3 @ t" by auto
  from split_at_first[OF f(2) g'(2) r] have "f2 = g2" "f3 = g3 @ t" by auto
  with 1 g show ?thesis by simp
qed

text \<open>
  C6, amended. Parsing raises \<open>InvalidPluginError\<close>, in strict and in non-strict mode, for
  every text with fewer than two \<open>/\<close> (too few fields) and for every text of three fields
  \<open>f1/f2/f3\<close> (no \<open>/\<close> inside a field) one of which is empty. A text with more than
  three fields is not refused by the parser.
\<close>

theorem from_string_malformed:
  "(length (filter ((=) CHR ''/'') s) < 2 \<longrightarrow> from_string s strict = Inl InvalidPluginError)
   \<and> (CHR ''/'' \<notin> set f1 \<and> CHR ''/'' \<notin> set f2 \<and> CHR ''/'' \<notin> set f3
        \<and> (f1 = [] \<or> f2 = [] \<or> f3 = [])
      \<longrightarrow> from_string (f1 @ ''/'' @ f2 @ ''/'' @ f3) strict = Inl InvalidPluginError)"
proof (intro conjI impI)
  assume few: "length (filter ((=) CHR ''/'') s) < 2"
  have "match_lenient s = None"
  proof (cases "match_lenient s")
    case (Some m)
    obtain g1 g2 g3 g4 where "m = (g1, g2, g3, g4)" by (cases m) auto
    with Some match_lenient_sound[of s g1 g2 g3 g4] few show ?thesis by auto
  qed simp
  moreover have "match_strict s = None"
  proof (cases "match_strict s")
    case (Some m)
    obtain g1 g2 g3 g4 where "m = (g1, g2, g3, g4)" by (cases m) auto
    with Some match_strict_sound[of s g1 g2 g3 g4] few show ?thesis by auto
  qed simp
  ultimately show "from_string s strict = Inl InvalidPluginError"
    by (simp add: from_string_def)
next
  assume a: "CHR ''/'' \<notin> set f1 \<and> CHR ''/'' \<notin> set f2 \<and> CHR ''/'' \<notin> set f3
        \<and> (f1 = [] \<or> f2 = [] \<or> f3 = [])"
  let ?s = "f1 @ ''/'' @ f2 @ ''/'' @ f3"
  have "match_lenient ?s = None"
  proof (cases "match_lenient ?s")
    case (Some m)
    obtain g1 g2 g3 g4 where "m = (g1, g2, g3, g4)" by (cases m) auto
    with Some match_lenient_sound[of ?s g1 g2 g3 g4] obtain t where
      "g1 \<noteq> []" "g2 \<noteq> []" "g3 \<noteq> []"
      "f1 @ CHR ''/'' # f2 @ CHR ''/'' # f3 = g1 @ CHR ''/'' # g2 @ CHR ''/'' # g3 @ t"
      by auto
    with three_fields_nonempty[of f1 f2 f3 g1 g2 g3 t] a show ?thesis by blast
  qed simp
  moreover have "match_strict ?s = None"
  proof (cases "match_strict ?s")
    case (Some m)
    obtain g1 g2 g3 g4 where "m = (g1, g2, g3, g4)" by (cases m) auto
    with Some match_strict_sound[of ?s g1 g2 g3 g4] obtain b t where
      "g1 \<noteq> []" "g2 \<noteq> []" "g3 \<noteq> []"
      "f1 @ CHR ''/'' # f2 @ CHR ''/'' # f3 = g1 @ CHR ''/'' # g2 @ CHR ''/'' # g3 @ (CHR ''@'' # b @ t)"
      by auto
    with three_fields_nonempty[of f1 f2 f3 g1 g2 g3 "CHR ''@'' # b @ t"] a show ?thesis by blast
  qed simp
  ultimately show "from_string ?s strict = Inl InvalidPluginError"
    by (simp add: from_string_def)
qed

theorem from_string_malformed_witness:
  "length (filter ((=) CHR ''/'') ''a/b'') < 2
   \<and> from_string ''a/b'' False = Inl InvalidPluginError
   \<and> from_string ''a/b'' True = Inl InvalidPluginError
   \<and> CHR ''/'' \<notin> set ''a'' \<and> CHR ''/'' \<notin> set [] \<and> CHR ''/'' \<notin> set ''c@d''
   \<and> from_string ''a//c@d'' False = Inl InvalidPluginError
   \<and> from_string ''a//c@d'' True = Inl InvalidPluginError"
  using from_string_malformed[of "''a/b''" False "''a''" "[]" "''c@d''"]
    from_string_malformed[of "''a/b''" True "''a''" "[]" "''c@d''"]
  by simp

text \<open>
  C9, as stated, fails: the identifier joins the fields with dots and a hyphen without
  escaping, so a dot inside \<open>repo\<close> or \<open>branch\<close> moves the field boundaries. Two
  identities with the same name and owner, different repositories and branches, get the
  same identifier.
\<close>

theorem ext_string_collision:
  "ext_string \<lparr>user = ''a'', repo = ''b'', name = ''n'', branch = ''c.n-d''\<rparr>
     = ext_string \<lparr>user = ''a'', repo = ''b.n-c'', name = ''n'', branch = ''d''\<rparr>
   \<and> (repo \<lparr>user = ''a'', repo = ''b'', name = ''n'', branch = ''c.n-d''\<rparr>
        \<noteq> repo \<lparr>user = ''a'', repo = ''b.n-c'', name = ''n'', branch = ''d''\<rparr>)
   \<and> from_string ''a/b/n@c.n-d'' False
        = Inr \<lparr>user = ''a'', repo = ''b'', name = ''n'', branch = ''c.n-d''\<rparr>
   \<and> from_string ''a/b.n-c/n@d'' False
        = Inr \<lparr>user = ''a'', repo = ''b.n-c'', name = ''n'', branch = ''d''\<rparr>"
  by (simp add: ext_string_def from_string_def match_lenient_def lit_def at_end_def newline_def
      Plugin_def)

text \<open>
  C9, amended. For two identities with the same name whose owner and repository hold no
  dot, the identifiers are equal only if owner, repository and branch are equal.
\<close>

theorem ext_string_injective:
  assumes "name p = name q"
    and "CHR ''.'' \<notin> set (user p)" "CHR ''.'' \<notin> set (user q)"
    and "CHR ''.'' \<notin> set (repo p)" "CHR ''.'' \<notin> set (repo q)"
    and "user p \<noteq> user q \<or> repo p \<noteq> repo q \<or> branch p \<noteq> branch q"
  shows "ext_string p \<noteq> ext_string q"
proof
  assume "ext_string p = ext_string q"
  then have e: "user p @ CHR ''.'' # (repo p @ CHR ''.'' # (name p @ ''-'' @ branch p @ ''.'' @ name p))
      = user q @ CHR ''.'' # (repo q @ CHR ''.'' # (name q @ ''-'' @ branch q @ ''.'' @ name q))"
    by (simp add: ext_string_def)
  from split_at_first[OF assms(2,3) e] have u: "user p = user q"
    and e2: "repo p @ CHR ''.'' # (name p @ ''-'' @ branch p @ ''.'' @ name p)
      = repo q @ CHR ''.'' # (name q @ ''-'' @ branch q @ ''.'' @ name q)"
    by auto
  from split_at_first[OF assms(4,5) e2] have r: "repo p = repo q"
    and e3: "name p @ ''-'' @ branch p @ ''.'' @ name p = name q @ ''-'' @ branch q @ ''.'' @ name q"
    by auto
  from e3 assms(1) have "branch p @ (''.'' @ name q) = branch q @ (''.'' @ name q)"
    by simp
  then have "branch p = branch q" by (simp only: append_same_eq)
  with u r assms(6) show False by simp
qed

theorem ext_string_injective_witness:
  "name \<lparr>user = ''a'', repo = ''b'', name = ''n'', branch = ''master''\<rparr>
     = name \<lparr>user = ''a'', repo = ''b'', name = ''n'', branch = ''dev.1''\<rparr>
   \<and> CHR ''.'' \<notin> set ''a'' \<and> CHR ''.'' \<notin> set ''b''
   \<and> ''master'' \<noteq> ''dev.1''
   \<and> ext_string \<lparr>user = ''a'', repo = ''b'', name = ''n'', branch = ''master''\<rparr>
       \<noteq> ext_string \<lparr>user = ''a'', repo = ''b'', name = ''n'', branch = ''dev.1''\<rparr>"
  using ext_string_injective[of "\<lparr>user = ''a'', repo = ''b'', name = ''n'', branch = ''master''\<rparr>"
      "\<lparr>user = ''a'', repo = ''b'', name = ''n'', branch = ''dev.1''\<rparr>"]
  by simp

section \<open>Properties of the file system operations\<close>

lemma set_tl_prefixes: "set (tl (prefixes q)) = {p. prefix p q \<and> p \<noteq> []}"
proof -
  obtain rest where r: "prefixes q = [] # rest"
    using hd_prefixes[of q] prefixes_not_Nil[of q] by (cases "prefixes q") auto
  with distinct_prefixes[of q] have "[] \<notin> set rest" by simp
  moreover have "set (prefixes q) = {p. prefix p q}" by auto
  ultimately show ?thesis using r by auto
qed

lemma realpath_snoc: "realpath (p @ [c]) = step (realpath p) c"
  by (simp add: realpath_def)

lemma foldl_step_plain: "''..'' \<notin> set q \<Longrightarrow> foldl step cur q = cur @ q"
  by (induction q arbitrary: cur) (auto simp: step_def)

lemma realpath_append_plain: "''..'' \<notin> set q \<Longrightarrow> realpath (p @ q) = realpath p @ q"
  by (simp add: realpath_def foldl_step_plain)

lemma realpath_plain: "''..'' \<notin> set p \<Longrightarrow> realpath p = p"
  using realpath_append_plain[of p "[]"] by (simp add: realpath_def)



lemma walkable_plain: "''..'' \<notin> set p \<Longrightarrow> walkable fs cur p"
  by (induction p arbitrary: cur) auto

lemma resolves_plain: "''..'' \<notin> set p \<Longrightarrow> resolves fs p"
  by (simp add: resolves_def walkable_plain)

lemma walkable_mono:
  "walkable fs cur p \<Longrightarrow> (\<And>t. map_of fs t = Some Dir \<Longrightarrow> map_of fs' t = Some Dir) \<Longrightarrow>
     walkable fs' cur p"
  by (induction p arbitrary: cur) (auto split: if_splits)

lemma resolves_mono:
  "resolves fs p \<Longrightarrow> (\<And>t. map_of fs t = Some Dir \<Longrightarrow> map_of fs' t = Some Dir) \<Longrightarrow>
     resolves fs' p"
  unfolding resolves_def by (rule walkable_mono)


text \<open>What \<open>mkdir\<close> changes: missing places among the ones it visits become directories.\<close>

lemma mkdirs_lookup:
  "mkdirs ok fs ts = (r, fs') \<Longrightarrow>
     map_of fs' t = map_of fs t \<or> (map_of fs t = None \<and> map_of fs' t = Some Dir \<and> t \<in> set ts)"
proof (induction ts arbitrary: fs)
  case Nil
  then show ?case by simp
next
  case (Cons a ts)
  show ?case
  proof (cases "map_of fs a")
    case None
    with Cons.prems have "mkdirs ok (fs @ [(a, Dir)]) ts = (r, fs')" by simp
    from Cons.IH[OF this] None show ?thesis
      by (auto simp: map_add_def split: option.splits if_splits)
  next
    case (Some n)
    show ?thesis
    proof (cases n)
      case Dir
      with Some Cons.prems Cons.IH[of fs] show ?thesis by (auto split: if_splits)
    next
      case (File d)
      with Some Cons.prems show ?thesis by simp
    qed
  qed
qed




lemma mkdir_parents_lookup:
  "mkdir_parents ok fs p = (r, fs') \<Longrightarrow>
     map_of fs' t = map_of fs t
     \<or> (map_of fs t = None \<and> map_of fs' t = Some Dir
          \<and> (\<exists>q. prefix q p \<and> q \<noteq> [] \<and> t = realpath q))"
  using mkdirs_lookup[of ok fs "map realpath (tl (prefixes p))" r fs' t]
  by (auto simp: mkdir_parents_def set_tl_prefixes)







lemma write_file_lookup:
  "write_file fs p d = Inr fs' \<Longrightarrow>
     map_of fs' t = (if t = realpath p then Some (File d) else map_of fs t)"
  by (auto simp: write_file_def split: if_splits)

lemma write_file_dirs:
  "write_file fs p d = Inr fs' \<Longrightarrow> map_of fs t = Some Dir \<Longrightarrow> map_of fs' t = Some Dir"
  by (auto simp: write_file_def split: if_splits)

lemma write_file_resolves:
  "write_file fs p d = Inr fs' \<Longrightarrow> resolves fs q \<Longrightarrow> resolves fs' q"
  by (erule resolves_mono) (simp add: write_file_dirs)

lemma write_file_exists:
  "write_file fs q d = Inr fs' \<Longrightarrow> path_exists fs p \<Longrightarrow> path_exists fs' p"
  by (auto simp: path_exists_def write_file_lookup write_file_resolves)



section \<open>Properties of the extraction loop\<close>

lemma prefix_parent: "prefix (parent p) p"
  by (simp add: parent_def prefixeq_butlast)

text \<open>One entry: every place either keeps what it held, or was missing and is now a
  directory on the way to the target, or is the target of a file entry and now holds
  its content.\<close>

lemma install_entry_lookup:
  assumes "install_entry T e fs = (r, fs')"
  shows "map_of fs' t = map_of fs t
       \<or> (map_of fs t = None \<and> map_of fs' t = Some Dir
            \<and> (\<exists>q. prefix q (if zi_is_dir e then T else parent T) \<and> q \<noteq> [] \<and> t = realpath q))
       \<or> (\<not> zi_is_dir e \<and> r = Inr () \<and> t = realpath T \<and> map_of fs' t = Some (File (data e))
            \<and> map_of fs t \<noteq> Some Dir)"
proof (cases "zi_is_dir e")
  case True
  with assms have "mkdir_parents True fs T = (r, fs')" by (simp add: install_entry_def)
  from mkdir_parents_lookup[OF this, of t] True show ?thesis by auto
next
  case False
  obtain r1 fs1 where mk: "mkdir_parents True fs (parent T) = (r1, fs1)"
    by (cases "mkdir_parents True fs (parent T)") auto
  note l1 = mkdir_parents_lookup[OF mk, of t]
  show ?thesis
  proof (cases r1)
    case (Inl x)
    with assms False mk have "fs' = fs1" by (simp add: install_entry_def)
    with l1 False show ?thesis by auto
  next
    case (Inr u)
    show ?thesis
    proof (cases "write_file fs1 T (data e)")
      case (Inl x)
      with assms False mk Inr have "fs' = fs1" by (simp add: install_entry_def)
      with l1 False show ?thesis by auto
    next
      case w: (Inr fs2)
      with assms False mk Inr have eq: "fs' = fs2" "r = Inr ()" by (simp_all add: install_entry_def)
      from w have nd: "map_of fs1 (realpath T) \<noteq> Some Dir"
        by (auto simp: write_file_def split: if_splits)
      show ?thesis
      proof (cases "t = realpath T")
        case True
        have "map_of fs t \<noteq> Some Dir" using nd l1 True by auto
        with True eq False write_file_lookup[OF w, of t] show ?thesis by simp
      next
        case ne: False
        with write_file_lookup[OF w, of t] eq have "map_of fs' t = map_of fs1 t" by simp
        with l1 False show ?thesis by auto
      qed
    qed
  qed
qed





lemma extract_entries_lookup:
  "extract_entries dest nm infos fs = (r, fs') \<Longrightarrow>
     map_of fs' t = map_of fs t
     \<or> (map_of fs t = None \<and> map_of fs' t = Some Dir
          \<and> (\<exists>e \<in> set infos. 3 \<le> length (parts (filename e)) \<and> parts (filename e) ! 1 = nm
                \<and> (\<exists>q. prefix q (dest @ drop 2 (parts (filename e))) \<and> q \<noteq> [] \<and> t = realpath q)))
     \<or> (map_of fs t \<noteq> Some Dir
          \<and> (\<exists>e \<in> set infos. 3 \<le> length (parts (filename e)) \<and> parts (filename e) ! 1 = nm
                \<and> \<not> zi_is_dir e \<and> t = realpath (dest @ drop 2 (parts (filename e)))
                \<and> map_of fs' t = Some (File (data e))))"
proof (induction infos arbitrary: fs)
  case Nil
  then show ?case by simp
next
  case (Cons info infos)
  let ?sel = "\<lambda>e. 3 \<le> length (parts (filename e)) \<and> parts (filename e) ! 1 = nm"
  let ?T = "\<lambda>e. dest @ drop 2 (parts (filename e))"
  show ?case
  proof (cases "?sel info")
    case False
    with Cons.prems have "extract_entries dest nm infos fs = (r, fs')" by (auto simp: Let_def)
    from Cons.IH[OF this] show ?thesis by auto
  next
    case sel: True
    obtain r1 fs1 where ie: "install_entry (?T info) info fs = (r1, fs1)"
      by (cases "install_entry (?T info) info fs") auto
    have pre: "prefix q (?T info)" if "prefix q (if zi_is_dir info then ?T info else parent (?T info))" for q
      using that prefix_parent[of "?T info"] prefix_order.trans by (auto split: if_splits)
    from install_entry_lookup[OF ie, of t] pre
    have one: "map_of fs1 t = map_of fs t
       \<or> (map_of fs t = None \<and> map_of fs1 t = Some Dir
            \<and> (\<exists>q. prefix q (?T info) \<and> q \<noteq> [] \<and> t = realpath q))
       \<or> (\<not> zi_is_dir info \<and> r1 = Inr () \<and> t = realpath (?T info)
            \<and> map_of fs1 t = Some (File (data info)) \<and> map_of fs t \<noteq> Some Dir)"
      by blast
    show ?thesis
    proof (cases r1)
      case (Inl x)
      with Cons.prems sel ie have "fs' = fs1" by (simp add: Let_def)
      with one Inl sel show ?thesis by auto
    next
      case (Inr u)
      with Cons.prems sel ie have rest: "extract_entries dest nm infos fs1 = (r, fs')"
        by (simp add: Let_def)
      note two = Cons.IH[OF rest]
      from one show ?thesis
      proof (elim disjE conjE exE)
        assume same: "map_of fs1 t = map_of fs t"
        from two show ?thesis unfolding same by auto
      next
        fix q
        assume a: "map_of fs t = None" "map_of fs1 t = Some Dir" "prefix q (?T info)" "q \<noteq> []"
          "t = realpath q"
        from two a(2) have "map_of fs' t = Some Dir" by auto
        with a sel show ?thesis by auto
      next
        assume a: "\<not> zi_is_dir info" "t = realpath (?T info)"
          "map_of fs1 t = Some (File (data info))" "map_of fs t \<noteq> Some Dir"
        from two a(3) have "map_of fs' t = Some (File (data info))
          \<or> (\<exists>e \<in> set infos. ?sel e \<and> \<not> zi_is_dir e \<and> t = realpath (?T e)
                \<and> map_of fs' t = Some (File (data e)))"
          by auto
        with a sel show ?thesis by auto
      qed
    qed
  qed
qed

lemma extract_entries_dirs:
  "extract_entries dest nm infos fs = (r, fs') \<Longrightarrow> map_of fs t = Some Dir \<Longrightarrow>
     map_of fs' t = Some Dir"
  using extract_entries_lookup[of dest nm infos fs r fs' t] by auto

lemma extract_entries_resolves:
  "extract_entries dest nm infos fs = (r, fs') \<Longrightarrow> resolves fs p \<Longrightarrow> resolves fs' p"
  by (erule resolves_mono) (simp add: extract_entries_dirs)

lemma extract_entries_mono:
  "extract_entries dest nm infos fs = (r, fs') \<Longrightarrow> path_exists fs p \<Longrightarrow> path_exists fs' p"
  using extract_entries_lookup[of dest nm infos fs r fs' "realpath p"]
  by (auto simp: path_exists_def extract_entries_resolves)









text \<open>The file system follows a \<open>..\<close> in a target: with the plugin \<open>target\<close> installed as
  above, installing \<open>other\<close> from an archive whose entry for \<open>other\<close> goes up one level
  puts that entry's content into the file of \<open>target\<close>.\<close>

lemma extract_entries_follows_dotdot:
  "fst (extract_entries other_dest ''other'' dotdot_archive example_installed) = Inr ()
   \<and> map_of (snd (extract_entries other_dest ''other'' dotdot_archive example_installed))
        (example_dest @ [''target.x'']) = Some (File ''X'')"
  by (simp add: example_dest_def other_dest_def dotdot_archive_def example_installed_def
      parts_def zi_is_dir_def install_entry_def mkdir_parents_def write_file_def parent_def
      realpath_def step_def resolves_def)

section \<open>What each step leaves alone\<close>

text \<open>The four ways through \<open>download_plugin\<close>.\<close>

lemma download_plugin_cases:
  assumes d: "download_plugin env s p f = (r, s')"
  obtains
    (skip) "path_exists (files s) (abs_path (base_dir env) p)" "\<not> f" "r = Inr ()" "s' = s"
  | (no_dir) e fs1 where "\<not> (path_exists (files s) (abs_path (base_dir env) p) \<and> \<not> f)"
      "mkdir_parents True (files s) (abs_path (base_dir env) p) = (Inl e, fs1)"
      "r = Inl e" "s' = s\<lparr>files := fs1\<rparr>"
  | (no_archive) e fs1 where "\<not> (path_exists (files s) (abs_path (base_dir env) p) \<and> \<not> f)"
      "mkdir_parents True (files s) (abs_path (base_dir env) p) = (Inr (), fs1)"
      "(if path_exists fs1 (cache_path (base_dir env) p) \<and> \<not> f
        then open_cached (s\<lparr>files := fs1\<rparr>) (cache_path (base_dir env) p)
        else fetch_archive env (s\<lparr>files := fs1\<rparr>) p) = (Inl e, s')"
      "r = Inl e"
  | (unpacked) fs1 raw s2 where "\<not> (path_exists (files s) (abs_path (base_dir env) p) \<and> \<not> f)"
      "mkdir_parents True (files s) (abs_path (base_dir env) p) = (Inr (), fs1)"
      "(if path_exists fs1 (cache_path (base_dir env) p) \<and> \<not> f
        then open_cached (s\<lparr>files := fs1\<rparr>) (cache_path (base_dir env) p)
        else fetch_archive env (s\<lparr>files := fs1\<rparr>) p) = (Inr raw, s2)"
      "unpack env s2 p raw = (r, s')"
proof (cases "path_exists (files s) (abs_path (base_dir env) p) \<and> \<not> f")
  case True
  with d have "r = Inr ()" "s' = s" by (simp_all add: download_plugin_def Let_def)
  with True show ?thesis by (intro skip) simp_all
next
  case False
  obtain r1 fs1 where mk: "mkdir_parents True (files s) (abs_path (base_dir env) p) = (r1, fs1)"
    by (cases "mkdir_parents True (files s) (abs_path (base_dir env) p)") auto
  show ?thesis
  proof (cases r1)
    case (Inl e)
    with d False mk have "r = Inl e" "s' = s\<lparr>files := fs1\<rparr>"
      by (simp_all add: download_plugin_def Let_def)
    with no_dir[OF False mk[unfolded Inl]] show ?thesis by simp
  next
    case (Inr u)
    then have mk': "mkdir_parents True (files s) (abs_path (base_dir env) p) = (Inr (), fs1)"
      using mk by simp
    let ?src = "if path_exists fs1 (cache_path (base_dir env) p) \<and> \<not> f
                then open_cached (s\<lparr>files := fs1\<rparr>) (cache_path (base_dir env) p)
                else fetch_archive env (s\<lparr>files := fs1\<rparr>) p"
    obtain r2 s2 where src: "?src = (r2, s2)" by (cases ?src) auto
    from d False mk' src
    have rest: "(case r2 of Inl e \<Rightarrow> (Inl e, s2) | Inr raw \<Rightarrow> unpack env s2 p raw) = (r, s')"
      by (simp add: download_plugin_def Let_def)
    show ?thesis
    proof (cases r2)
      case (Inl e)
      with rest have "r = Inl e" "s' = s2" by simp_all
      with no_archive[OF False mk', of e] src Inl show ?thesis by simp
    next
      case (Inr raw)
      with rest have "unpack env s2 p raw = (r, s')" by simp
      with unpacked[OF False mk', of raw s2] src Inr show ?thesis by simp
    qed
  qed
qed

lemma unpack_frame:
  "unpack env s p raw = (r, s') \<Longrightarrow>
     config_plugins s' = config_plugins s \<and> stored_plugins s' = stored_plugins s
     \<and> loaded_plugins s' = loaded_plugins s \<and> extensions s' = extensions s \<and> ready s' = ready s
     \<and> trace s' = trace s"
  by (auto simp: unpack_def split: option.splits prod.splits)

lemma open_cached_frame:
  "open_cached s cp = (r, s') \<Longrightarrow>
     config_plugins s' = config_plugins s \<and> stored_plugins s' = stored_plugins s
     \<and> loaded_plugins s' = loaded_plugins s \<and> extensions s' = extensions s \<and> ready s' = ready s
     \<and> files s' = files s"
  by (auto simp: open_cached_def emit_def split: sum.splits)

lemma fetch_archive_frame:
  "fetch_archive env s p = (r, s') \<Longrightarrow>
     config_plugins s' = config_plugins s \<and> stored_plugins s' = stored_plugins s
     \<and> loaded_plugins s' = loaded_plugins s \<and> extensions s' = extensions s \<and> ready s' = ready s"
  by (auto simp: fetch_archive_def emit_def Let_def
      split: option.splits sum.splits if_splits prod.splits)

lemma download_plugin_frame:
  assumes "download_plugin env s p f = (r, s')"
  shows "config_plugins s' = config_plugins s \<and> stored_plugins s' = stored_plugins s
     \<and> loaded_plugins s' = loaded_plugins s \<and> extensions s' = extensions s \<and> ready s' = ready s"
  using assms
proof (cases rule: download_plugin_cases)
  case skip
  then show ?thesis by simp
next
  case (no_dir e fs1)
  then show ?thesis by simp
next
  case (no_archive e fs1)
  from no_archive(3) show ?thesis
    by (auto dest!: open_cached_frame fetch_archive_frame split: if_splits)
next
  case (unpacked fs1 raw s2)
  from unpacked(3) have "config_plugins s2 = config_plugins s \<and> stored_plugins s2 = stored_plugins s
     \<and> loaded_plugins s2 = loaded_plugins s \<and> extensions s2 = extensions s \<and> ready s2 = ready s"
    by (auto dest!: open_cached_frame fetch_archive_frame split: if_splits)
  with unpack_frame[OF unpacked(4)] show ?thesis by simp
qed

lemma load_plugin_frame:
  "load_plugin env s p = (r, s') \<Longrightarrow>
     config_plugins s' = config_plugins s \<and> stored_plugins s' = stored_plugins s
     \<and> files s' = files s \<and> ready s' = ready s"
  by (auto simp: load_plugin_def load_extension_def emit_def Let_def
      split: if_splits sum.splits prod.splits option.splits)

lemma parse_user_input_not_ready:
  "\<not> ready s \<Longrightarrow> parse_user_input env s n cv = (Inr None, emit (Send StillLoading) s)"
  by (simp add: parse_user_input_def)

lemma parse_user_input_some:
  "parse_user_input env s n cv = (Inr (Some p), s1) \<Longrightarrow> s1 = s \<and> ready s"
  by (auto simp: parse_user_input_def split: if_splits option.splits sum.splits prod.splits)

section \<open>Commands before the readiness event is set\<close>

lemma plugins_add_not_ready:
  "\<not> ready s \<Longrightarrow> plugins_add env s n = (Inr (), emit (Send StillLoading) s)"
  by (simp add: plugins_add_def parse_user_input_not_ready)

lemma plugins_remove_not_ready:
  "\<not> ready s \<Longrightarrow> plugins_remove env s n = (Inr (), emit (Send StillLoading) s)"
  by (simp add: plugins_remove_def parse_user_input_not_ready)

lemma update_plugin_not_ready:
  "\<not> ready s \<Longrightarrow> update_plugin env s n = (Inr (), emit (Send StillLoading) s)"
  by (simp add: update_plugin_def parse_user_input_not_ready)

lemma update_each_not_ready:
  "\<not> ready s \<Longrightarrow>
     update_each env s ns = (Inr (), s\<lparr>trace := trace s @ replicate (length ns) (Send StillLoading)\<rparr>)"
proof (induction ns arbitrary: s)
  case Nil
  then show ?case by simp
next
  case (Cons n ns)
  have "\<not> ready (emit (Send StillLoading) s)" using Cons.prems by (simp add: emit_def)
  from Cons.IH[OF this] Cons.prems show ?case
    by (simp add: update_plugin_not_ready emit_def replicate_app_Cons_same)
qed

lemma run_command_not_ready:
  assumes "\<not> ready s"
  shows "\<exists>k. run_command env s c = (Inr (), s\<lparr>trace := trace s @ replicate k (Send StillLoading)\<rparr>)"
proof (cases c)
  case (Add n)
  have "emit (Send StillLoading) s = s\<lparr>trace := trace s @ replicate 1 (Send StillLoading)\<rparr>"
    by (simp add: emit_def)
  with Add assms show ?thesis
    unfolding run_command_def by (metis command.simps(10) plugins_add_not_ready)
next
  case (Remove n)
  have "emit (Send StillLoading) s = s\<lparr>trace := trace s @ replicate 1 (Send StillLoading)\<rparr>"
    by (simp add: emit_def)
  with Remove assms show ?thesis
    unfolding run_command_def by (metis command.simps(11) plugins_remove_not_ready)
next
  case (Update n)
  show ?thesis
  proof (cases n)
    case None
    with Update assms update_each_not_ready[of s env "config_plugins s"] show ?thesis
      by (auto simp: run_command_def plugins_update_def)
  next
    case (Some m)
    have "emit (Send StillLoading) s = s\<lparr>trace := trace s @ replicate 1 (Send StillLoading)\<rparr>"
      by (simp add: emit_def)
    with Some Update assms update_plugin_not_ready[of s env m] show ?thesis
      by (auto simp: run_command_def plugins_update_def intro: exI[of _ 1])
  qed
qed

lemma run_commands_not_ready:
  "\<not> ready s \<Longrightarrow>
     \<exists>k. run_commands s cs = s\<lparr>trace := trace s @ replicate k (Send StillLoading)\<rparr>"
proof (induction cs arbitrary: s)
  case Nil
  have "s = s\<lparr>trace := trace s @ replicate 0 (Send StillLoading)\<rparr>" by simp
  then show ?case by (metis run_commands.simps(1))
next
  case (Cons ec cs)
  obtain env c where ec: "ec = (env, c)" by (cases ec) auto
  from run_command_not_ready[OF Cons.prems, of env c] obtain k where
    k: "run_command env s c = (Inr (), s\<lparr>trace := trace s @ replicate k (Send StillLoading)\<rparr>)"
    by blast
  let ?s1 = "s\<lparr>trace := trace s @ replicate k (Send StillLoading)\<rparr>"
  have "\<not> ready ?s1" using Cons.prems by simp
  from Cons.IH[OF this] obtain j where
    j: "run_commands ?s1 cs = ?s1\<lparr>trace := trace ?s1 @ replicate j (Send StillLoading)\<rparr>"
    by blast
  have "run_commands s (ec # cs) = s\<lparr>trace := trace s @ replicate (k + j) (Send StillLoading)\<rparr>"
    using ec k j by (simp add: replicate_add)
  then show ?case by blast
qed

text \<open>
  C10. When the cog is created with \<open>enable_plugins\<close> false, \<open>initial_load_plugins\<close> is not
  among the scheduled tasks and the event is unset; from there every sequence of \<open>add\<close>,
  \<open>remove\<close> and \<open>update\<close> commands, under any environments, only appends "still loading"
  replies: the plugin list, the stored list, the files, the loaded set and the event are
  what they were, and no other reply (in particular not the "installed, disabled" one of
  \<open>add\<close>) is ever sent.
\<close>

theorem disabled_plugins_never_ready:
  assumes "Plugins_init False s = (s0, tasks)"
  shows "InitialLoadPlugins \<notin> set tasks \<and> \<not> ready s0 \<and>
         (\<exists>k. run_commands s0 cs = s0\<lparr>trace := trace s0 @ replicate k (Send StillLoading)\<rparr>)"
proof -
  from assms have t: "InitialLoadPlugins \<notin> set tasks" and r: "\<not> ready s0"
    by (auto simp: Plugins_init_def)
  from run_commands_not_ready[OF r] t r show ?thesis by blast
qed

theorem disabled_plugins_never_ready_witness:
  "Plugins_init False ready_bot = (ready_bot\<lparr>ready := False\<rparr>, [PopulateRegistry])
   \<and> (\<exists>k. run_commands (ready_bot\<lparr>ready := False\<rparr>)
            [(offline_env\<lparr>enable_plugins := False\<rparr>, Add ''a/b/d''),
             (offline_env, Remove ''a/b/c''), (offline_env, Update None)]
          = ready_bot\<lparr>ready := False, trace := trace (ready_bot\<lparr>ready := False\<rparr>) @ replicate k (Send StillLoading)\<rparr>)"
proof -
  have i: "Plugins_init False ready_bot = (ready_bot\<lparr>ready := False\<rparr>, [PopulateRegistry])"
    by (simp add: Plugins_init_def ready_bot_def)
  from disabled_plugins_never_ready[OF i, where cs = "[(offline_env\<lparr>enable_plugins := False\<rparr>, Add ''a/b/d''),
             (offline_env, Remove ''a/b/c''), (offline_env, Update None)]"] i
  show ?thesis by simp
qed

section \<open>The \<open>add\<close> command\<close>

lemma emit_fields [simp]:
  "config_plugins (emit e s) = config_plugins s"
  "stored_plugins (emit e s) = stored_plugins s"
  "files (emit e s) = files s"
  "loaded_plugins (emit e s) = loaded_plugins s"
  "extensions (emit e s) = extensions s"
  "ready (emit e s) = ready s"
  "trace (emit e s) = trace s @ [e]"
  by (simp_all add: emit_def)

lemma config_update_fields:
  "config_update env s = (r, s') \<Longrightarrow>
     config_plugins s' = config_plugins s \<and> files s' = files s
     \<and> loaded_plugins s' = loaded_plugins s \<and> extensions s' = extensions s \<and> ready s' = ready s
     \<and> (stored_plugins s' = stored_plugins s \<or> stored_plugins s' = config_plugins s)"
  by (auto simp: config_update_def split: if_splits)

text \<open>What \<open>add\<close> does once the name is resolved, the plugin is new and its name is free.\<close>

lemma plugins_add_fresh:
  assumes p: "parse_user_input env s n True = (Inr (Some p), s1)"
    and new: "str p \<notin> set (config_plugins s)" "name p \<notin> cogs env"
    and add: "plugins_add env s n = (r, s')"
  shows "(\<exists>e s2. download_plugin env (emit (Send (Downloading (link p))) s) p True = (Inl e, s2)
            \<and> r = Inr () \<and> s' = emit (Edit DownloadFailed) s2
            \<and> config_plugins s' = config_plugins s \<and> stored_plugins s' = stored_plugins s)
       \<or> (\<exists>s2. download_plugin env (emit (Send (Downloading (link p))) s) p True = (Inr (), s2)
            \<and> config_plugins s' = config_plugins s @ [str p]
            \<and> (stored_plugins s' = stored_plugins s \<or> stored_plugins s' = config_plugins s @ [str p]))"
proof -
  from parse_user_input_some[OF p] have s1: "s1 = s" by simp
  let ?s0 = "emit (Send (Downloading (link p))) s"
  obtain rd s2 where d: "download_plugin env ?s0 p True = (rd, s2)"
    by (cases "download_plugin env ?s0 p True") auto
  from download_plugin_frame[OF d] have f2: "config_plugins s2 = config_plugins s"
    "stored_plugins s2 = stored_plugins s" by simp_all
  show ?thesis
  proof (cases rd)
    case (Inl e)
    with p s1 new add d have "r = Inr () \<and> s' = emit (Edit DownloadFailed) s2"
      by (simp add: plugins_add_def)
    with Inl d f2 show ?thesis by auto
  next
    case (Inr u)
    let ?s3 = "s2\<lparr>config_plugins := config_plugins s2 @ [str p]\<rparr>"
    obtain rc s4 where c: "config_update env ?s3 = (rc, s4)"
      by (cases "config_update env ?s3") auto
    from config_update_fields[OF c] f2 have f4: "config_plugins s4 = config_plugins s @ [str p]"
      "stored_plugins s4 = stored_plugins s \<or> stored_plugins s4 = config_plugins s @ [str p]"
      by auto
    have "config_plugins s' = config_plugins s4 \<and> stored_plugins s' = stored_plugins s4"
    proof (cases rc)
      case (Inl e)
      with p s1 new add d Inr c show ?thesis by (simp add: plugins_add_def)
    next
      case rcr: (Inr v)
      show ?thesis
      proof (cases "enable_plugins env")
        case False
        with p s1 new add d Inr c rcr show ?thesis by (auto simp: plugins_add_def)
      next
        case True
        obtain rl s5 where l: "load_plugin env s4 p = (rl, s5)"
          by (cases "load_plugin env s4 p") auto
        from load_plugin_frame[OF l] have "config_plugins s5 = config_plugins s4"
          "stored_plugins s5 = stored_plugins s4" by simp_all
        moreover from p s1 new add d Inr c rcr True l
        have "s' = emit (Edit LoadFailed) s5 \<or> s' = emit (Edit InstalledOk) s5"
          by (cases rl) (auto simp: plugins_add_def)
        ultimately show ?thesis by auto
      qed
    qed
    with f4 d Inr show ?thesis by auto
  qed
qed

lemma plugins_add_list_changes:
  assumes add: "plugins_add env s n = (r, s')"
    and ch: "config_plugins s' \<noteq> config_plugins s \<or> stored_plugins s' \<noteq> stored_plugins s"
  shows "\<exists>p s2. parse_user_input env s n True = (Inr (Some p), s)
            \<and> download_plugin env (emit (Send (Downloading (link p))) s) p True = (Inr (), s2)
            \<and> config_plugins s' = config_plugins s @ [str p]"
proof -
  obtain rp s1 where p: "parse_user_input env s n True = (rp, s1)"
    by (cases "parse_user_input env s n True") auto
  have s1: "config_plugins s1 = config_plugins s \<and> stored_plugins s1 = stored_plugins s"
    using p by (auto simp: parse_user_input_def split: if_splits option.splits sum.splits prod.splits)
  show ?thesis
  proof (cases rp)
    case (Inl e)
    with p add s1 ch show ?thesis by (simp add: plugins_add_def)
  next
    case (Inr po)
    show ?thesis
    proof (cases po)
      case None
      with Inr p add s1 ch show ?thesis by (simp add: plugins_add_def)
    next
      case (Some q)
      with Inr p have pq: "parse_user_input env s n True = (Inr (Some q), s1)" by simp
      from parse_user_input_some[OF pq] have e: "s1 = s" by simp
      show ?thesis
      proof (cases "str q \<in> set (config_plugins s) \<or> name q \<in> cogs env")
        case True
        with pq e add ch show ?thesis by (auto simp: plugins_add_def split: if_splits)
      next
        case False
        with plugins_add_fresh[OF pq _ _ add] ch pq e show ?thesis by auto
      qed
    qed
  qed
qed

text \<open>
  C1. When the resolved identity's text is already in the plugin list, \<open>add\<close> answers
  "already installed" and changes nothing but the replies (so no file is touched). When
  the forced download-and-install raises, \<open>add\<close> answers "download failed" and both the
  list in memory and the stored list are as before. Whenever \<open>add\<close> changes either list,
  the forced download-and-install had succeeded and the change is the identity's text
  appended at the end.
\<close>

theorem plugins_add_conflict_and_order:
  "(parse_user_input env s n True = (Inr (Some p), s1) \<and> str p \<in> set (config_plugins s)
      \<longrightarrow> plugins_add env s n = (Inr (), s\<lparr>trace := trace s @ [Send AlreadyInstalled]\<rparr>))
   \<and> (parse_user_input env s n True = (Inr (Some p), s1) \<and> str p \<notin> set (config_plugins s)
        \<and> name p \<notin> cogs env
        \<and> download_plugin env (emit (Send (Downloading (link p))) s) p True = (Inl e, s2)
      \<longrightarrow> plugins_add env s n = (Inr (), emit (Edit DownloadFailed) s2)
          \<and> config_plugins s2 = config_plugins s \<and> stored_plugins s2 = stored_plugins s)
   \<and> (plugins_add env s n = (r, s')
        \<and> (config_plugins s' \<noteq> config_plugins s \<or> stored_plugins s' \<noteq> stored_plugins s)
      \<longrightarrow> (\<exists>q s3. parse_user_input env s n True = (Inr (Some q), s)
              \<and> download_plugin env (emit (Send (Downloading (link q))) s) q True = (Inr (), s3)
              \<and> config_plugins s' = config_plugins s @ [str q]))"
proof -
  have 1: "plugins_add env s n = (Inr (), s\<lparr>trace := trace s @ [Send AlreadyInstalled]\<rparr>)"
    if a: "parse_user_input env s n True = (Inr (Some p), s1) \<and> str p \<in> set (config_plugins s)"
  proof -
    from a parse_user_input_some[of env s n True p s1] have "s1 = s" by simp
    with a show ?thesis by (simp add: plugins_add_def emit_def)
  qed
  have 2: "plugins_add env s n = (Inr (), emit (Edit DownloadFailed) s2)
          \<and> config_plugins s2 = config_plugins s \<and> stored_plugins s2 = stored_plugins s"
    if a: "parse_user_input env s n True = (Inr (Some p), s1) \<and> str p \<notin> set (config_plugins s)
        \<and> name p \<notin> cogs env
        \<and> download_plugin env (emit (Send (Downloading (link p))) s) p True = (Inl e, s2)"
  proof -
    from a parse_user_input_some[of env s n True p s1] have s1: "s1 = s" by simp
    from a download_plugin_frame[of env "emit (Send (Downloading (link p))) s" p True "Inl e" s2]
    have "config_plugins s2 = config_plugins s \<and> stored_plugins s2 = stored_plugins s" by simp
    moreover from a s1 have "plugins_add env s n = (Inr (), emit (Edit DownloadFailed) s2)"
      by (simp add: plugins_add_def)
    ultimately show ?thesis by simp
  qed
  have 3: "\<exists>q s3. parse_user_input env s n True = (Inr (Some q), s)
              \<and> download_plugin env (emit (Send (Downloading (link q))) s) q True = (Inr (), s3)
              \<and> config_plugins s' = config_plugins s @ [str q]"
    if "plugins_add env s n = (r, s')
        \<and> (config_plugins s' \<noteq> config_plugins s \<or> stored_plugins s' \<noteq> stored_plugins s)"
    using that plugins_add_list_changes[of env s n r s'] by blast
  from 1 2 3 show ?thesis by blast
qed

lemmas model_defs = plugins_add_def plugins_remove_def update_plugin_def plugins_update_def
  initial_load_plugins_def try_load_def unload_and_forget_def remove_empty_parents_def
  parse_user_input_def download_plugin_def fetch_archive_def
  load_plugin_def config_update_def emit_def from_string_def match_lenient_def match_strict_def
  lit_def at_end_def newline_def Plugin_def str_def link_def url_def abs_path_def rel_path_def
  cache_path_def joinpath_def join_parts_def is_absolute_def parts_def parent_def
  path_exists_def resolves_def realpath_def step_def mkdir_parents_def write_file_def
  read_file_def zi_is_dir_def install_entry_def unpack_def open_cached_def
  rmtree_def rmdir_def load_extension_def is_extension_error_def unload_extension_def
  ext_string_def Let_def

theorem plugins_add_conflict_and_order_witness:
  "parse_user_input offline_env ready_bot ''a/b/c'' True
     = (Inr (Some \<lparr>user = ''a'', repo = ''b'', name = ''c'', branch = ''master''\<rparr>), ready_bot)
   \<and> ''a/b/c@master'' \<in> set (config_plugins ready_bot)
   \<and> plugins_add offline_env ready_bot ''a/b/c''
       = (Inr (), ready_bot\<lparr>trace := [Send AlreadyInstalled]\<rparr>)
   \<and> fst (download_plugin offline_env
            (emit (Send (Downloading ''https://github.com/a/b/tree/master/d'')) ready_bot)
            \<lparr>user = ''a'', repo = ''b'', name = ''d'', branch = ''master''\<rparr> True) = Inl ClientError
   \<and> config_plugins (snd (plugins_add offline_env ready_bot ''a/b/d'')) = [''a/b/c@master'']
   \<and> stored_plugins (snd (plugins_add offline_env ready_bot ''a/b/d'')) = [''a/b/c@master'']
   \<and> config_plugins (snd (plugins_add online_env ready_bot ''u/r/target''))
       = [''a/b/c@master'', ''u/r/target@master'']
   \<and> (\<exists>q s3. parse_user_input online_env ready_bot ''u/r/target'' True = (Inr (Some q), ready_bot)
         \<and> download_plugin online_env (emit (Send (Downloading (link q))) ready_bot) q True
             = (Inr (), s3))"
proof -
  let ?c = "\<lparr>user = ''a'', repo = ''b'', name = ''c'', branch = ''master''\<rparr>"
  let ?d = "\<lparr>user = ''a'', repo = ''b'', name = ''d'', branch = ''master''\<rparr>"
  let ?s0 = "emit (Send (Downloading (link ?d))) ready_bot"
  have pc: "parse_user_input offline_env ready_bot ''a/b/c'' True = (Inr (Some ?c), ready_bot)"
    by (simp add: model_defs offline_env_def ready_bot_def)
  have inc: "str ?c \<in> set (config_plugins ready_bot)"
    by (simp add: str_def ready_bot_def)
  have pd: "parse_user_input offline_env ready_bot ''a/b/d'' True = (Inr (Some ?d), ready_bot)"
    by (simp add: model_defs offline_env_def ready_bot_def)
  have nd: "str ?d \<notin> set (config_plugins ready_bot)" "name ?d \<notin> cogs offline_env"
    by (simp_all add: str_def ready_bot_def offline_env_def)
  have dl: "download_plugin offline_env ?s0 ?d True
              = (Inl ClientError, snd (download_plugin offline_env ?s0 ?d True))"
    by (simp add: model_defs offline_env_def ready_bot_def)
  have ch: "config_plugins (snd (plugins_add online_env ready_bot ''u/r/target''))
              = [''a/b/c@master'', ''u/r/target@master'']"
    by (simp add: model_defs online_env_def offline_env_def ready_bot_def example_archive_def)
  have 1: "plugins_add offline_env ready_bot ''a/b/c''
             = (Inr (), ready_bot\<lparr>trace := trace ready_bot @ [Send AlreadyInstalled]\<rparr>)"
    using plugins_add_conflict_and_order[where env = offline_env and s = ready_bot
        and n = "''a/b/c''" and p = ?c and ?s1.0 = ready_bot] pc inc
    by simp
  have 2: "plugins_add offline_env ready_bot ''a/b/d''
             = (Inr (), emit (Edit DownloadFailed) (snd (download_plugin offline_env ?s0 ?d True)))
           \<and> config_plugins (snd (download_plugin offline_env ?s0 ?d True)) = config_plugins ready_bot
           \<and> stored_plugins (snd (download_plugin offline_env ?s0 ?d True)) = stored_plugins ready_bot"
    using plugins_add_conflict_and_order[where env = offline_env and s = ready_bot
        and n = "''a/b/d''" and p = ?d and ?s1.0 = ready_bot and e = ClientError
        and ?s2.0 = "snd (download_plugin offline_env ?s0 ?d True)"] pd nd dl
    by simp
  have t: "trace ready_bot = []" "config_plugins ready_bot = [''a/b/c@master'']"
    "stored_plugins ready_bot = [''a/b/c@master'']"
    by (simp_all add: ready_bot_def)
  let ?X = "plugins_add online_env ready_bot ''u/r/target''"
  have ne: "?X = (fst ?X, snd ?X)
      \<and> (config_plugins (snd ?X) \<noteq> config_plugins ready_bot
          \<or> stored_plugins (snd ?X) \<noteq> stored_plugins ready_bot)"
    using ch t by simp
  have 3: "\<exists>q s3. parse_user_input online_env ready_bot ''u/r/target'' True = (Inr (Some q), ready_bot)
         \<and> download_plugin online_env (emit (Send (Downloading (link q))) ready_bot) q True
             = (Inr (), s3)"
    using plugins_add_conflict_and_order[where env = online_env and s = ready_bot
        and n = "''u/r/target''" and r = "fst ?X" and s' = "snd ?X"] ne
    by blast
  have inc': "''a/b/c@master'' \<in> set (config_plugins ready_bot)"
    using t by simp
  have w1: "plugins_add offline_env ready_bot ''a/b/c''
       = (Inr (), ready_bot\<lparr>trace := [Send AlreadyInstalled]\<rparr>)"
    using 1 t by simp
  have 4: "fst (download_plugin offline_env
            (emit (Send (Downloading ''https://github.com/a/b/tree/master/d'')) ready_bot)
            \<lparr>user = ''a'', repo = ''b'', name = ''d'', branch = ''master''\<rparr> True) = Inl ClientError"
    by (simp add: model_defs offline_env_def ready_bot_def)
  have 5: "config_plugins (snd (plugins_add offline_env ready_bot ''a/b/d'')) = [''a/b/c@master'']"
    using 2 t by simp
  have 6: "stored_plugins (snd (plugins_add offline_env ready_bot ''a/b/d'')) = [''a/b/c@master'']"
    using 2 t by simp
  show ?thesis
    by (intro conjI pc inc' w1 4 5 6 ch 3)
qed

section \<open>Downloads and the cache\<close>

lemma network_requests_simps [simp]:
  "network_requests (emit (HttpGet u) s) = network_requests s @ [u]"
  "network_requests (emit (CacheRead p) s) = network_requests s"
  "network_requests (s\<lparr>files := fs\<rparr>) = network_requests s"
  by (simp_all add: network_requests_def emit_def)











section \<open>The bulk load\<close>

lemma fetch_archive_trace:
  "fetch_archive env s p = (r, s') \<Longrightarrow> trace s' = trace s @ [HttpGet (url p)]"
  by (auto simp: fetch_archive_def emit_def Let_def
      split: option.splits sum.splits if_splits prod.splits)

lemma open_cached_trace:
  "open_cached s cp = (r, s') \<Longrightarrow> trace s' = trace s \<or> trace s' = trace s @ [CacheRead cp]"
  by (auto simp: open_cached_def emit_def split: sum.splits)

lemma download_plugin_trace:
  assumes "download_plugin env s p f = (r, s')"
  shows "\<exists>evs. trace s' = trace s @ evs \<and> list_all loading_event evs"
proof -
  have src: "trace s2 = trace s @ [] \<or> trace s2 = trace s @ [CacheRead (cache_path (base_dir env) p)]
      \<or> trace s2 = trace s @ [HttpGet (url p)]"
    if "(if path_exists fs1 (cache_path (base_dir env) p) \<and> \<not> f
         then open_cached (s\<lparr>files := fs1\<rparr>) (cache_path (base_dir env) p)
         else fetch_archive env (s\<lparr>files := fs1\<rparr>) p) = (r2, s2)" for fs1 r2 s2
    using that by (auto dest!: open_cached_trace fetch_archive_trace split: if_splits)
  from assms
  have "trace s' = trace s @ [] \<or> trace s' = trace s @ [CacheRead (cache_path (base_dir env) p)]
      \<or> trace s' = trace s @ [HttpGet (url p)]"
  proof (cases rule: download_plugin_cases)
    case skip
    then show ?thesis by simp
  next
    case (no_dir e fs1)
    then show ?thesis by simp
  next
    case (no_archive e fs1)
    from src[OF no_archive(3)] show ?thesis .
  next
    case (unpacked fs1 raw s2)
    from src[OF unpacked(3)] unpack_frame[OF unpacked(4)] show ?thesis by simp
  qed
  then show ?thesis by (elim disjE) (rule exI, erule conjI, simp)+
qed

lemma load_plugin_trace:
  assumes "load_plugin env s p = (r, s')"
  shows "\<exists>evs. trace s' = trace s @ evs \<and> list_all loading_event evs"
proof -
  from assms have "trace s' = trace s @ []
      \<or> trace s' = trace s @ [PipInstall (joinpath (abs_path (base_dir env) p) ''requirements.txt'')]"
    by (auto simp: load_plugin_def load_extension_def emit_def Let_def
        split: if_splits sum.splits prod.splits option.splits)
  then show ?thesis by (elim disjE) (rule exI, erule conjI, simp)+
qed

lemma try_load_frame:
  "config_plugins (try_load env s p) = config_plugins s
   \<and> stored_plugins (try_load env s p) = stored_plugins s
   \<and> ready (try_load env s p) = ready s
   \<and> (\<exists>evs. trace (try_load env s p) = trace s @ evs \<and> list_all loading_event evs)"
proof -
  obtain r1 s1 where d: "download_plugin env s p False = (r1, s1)"
    by (cases "download_plugin env s p False") auto
  obtain r2 s2 where l: "load_plugin env s1 p = (r2, s2)"
    by (cases "load_plugin env s1 p") auto
  from download_plugin_trace[OF d] obtain e1 where
    e1: "trace s1 = trace s @ e1" "list_all loading_event e1" by blast
  from load_plugin_trace[OF l] obtain e2 where
    e2: "trace s2 = trace s1 @ e2" "list_all loading_event e2" by blast
  have t: "try_load env s p = s1 \<or> try_load env s p = s2"
    using d l by (cases r1) (auto simp: try_load_def)
  have tr: "\<exists>evs. trace (try_load env s p) = trace s @ evs \<and> list_all loading_event evs"
  proof (rule disjE[OF t])
    assume "try_load env s p = s1"
    with e1 show ?thesis by auto
  next
    assume "try_load env s p = s2"
    with e1 e2 have "trace (try_load env s p) = trace s @ (e1 @ e2) \<and> list_all loading_event (e1 @ e2)"
      by simp
    then show ?thesis by blast
  qed
  from t download_plugin_frame[OF d] load_plugin_frame[OF l] tr show ?thesis by auto
qed

lemma count_list_remove1:
  "count_list (remove1 h xs) x = (if h = x \<and> x \<in> set xs then count_list xs x - 1 else count_list xs x)"
  by (induction xs) auto

lemma from_string_strict_Inl: "(\<exists>e. from_string x True = Inl e) \<longleftrightarrow> match_strict x = None"
  by (auto simp: from_string_def split: option.splits)

text \<open>
  The loop over the snapshot \<open>rest\<close>, started in a state whose list holds every entry of
  \<open>rest\<close> that the strict parser refuses at least as often as \<open>rest\<close> does: \<open>list.remove\<close>
  never raises; the event and the store are not touched; a text \<open>l\<close> without \<open>@\<close> is
  left in the list as often as the list held it beyond the snapshot; and a text \<open>m\<close> that
  the strict parser accepts stays in the list.
\<close>

lemma load_entries_migrates:
  assumes "\<And>x. match_strict x = None \<Longrightarrow> count_list rest x \<le> count_list (config_plugins s) x"
  shows "\<exists>s' evs. load_entries env s rest = (Inr (), s')
          \<and> stored_plugins s' = stored_plugins s \<and> ready s' = ready s
          \<and> trace s' = trace s @ evs \<and> list_all loading_event evs
          \<and> (\<forall>l. CHR ''@'' \<notin> set l \<longrightarrow>
                count_list (config_plugins s') l = count_list (config_plugins s) l - count_list rest l)
          \<and> (\<forall>m. match_strict m \<noteq> None \<and> m \<in> set (config_plugins s) \<longrightarrow> m \<in> set (config_plugins s'))
          \<and> (\<forall>l q. l \<in> set rest \<and> match_strict l = None \<and> from_string l False = Inr q
                \<and> match_strict (str q) \<noteq> None \<longrightarrow> str q \<in> set (config_plugins s'))"
  using assms
proof (induction rest arbitrary: s)
  case Nil
  have "trace s = trace s @ [] \<and> list_all loading_event []" by simp
  then show ?case by (simp del: append_Nil2)
next
  case (Cons h rest)
  note inv = Cons.prems
  show ?case
  proof (cases "match_strict h")
    case (Some g)
    obtain g1 g2 g3 g4 where g: "g = (g1, g2, g3, g4)" by (cases g) auto
    let ?p = "Plugin g1 g2 g3 g4"
    let ?s1 = "try_load env s ?p"
    from Some g have step: "load_entries env s (h # rest) = load_entries env ?s1 rest"
      by (simp add: from_string_def)
    from try_load_frame[of env s ?p] obtain e1 where
      f1: "config_plugins ?s1 = config_plugins s" "stored_plugins ?s1 = stored_plugins s"
          "ready ?s1 = ready s" "trace ?s1 = trace s @ e1" "list_all loading_event e1"
      by blast
    have "\<And>x. match_strict x = None \<Longrightarrow> count_list rest x \<le> count_list (config_plugins ?s1) x"
    proof -
      fix x assume x: "match_strict x = None"
      with Some have "h \<noteq> x" by auto
      with inv[OF x] f1(1) show "count_list rest x \<le> count_list (config_plugins ?s1) x" by simp
    qed
    from Cons.IH[OF this] obtain s' evs where
      ih: "load_entries env ?s1 rest = (Inr (), s')"
          "stored_plugins s' = stored_plugins ?s1" "ready s' = ready ?s1"
          "trace s' = trace ?s1 @ evs" "list_all loading_event evs"
          "\<forall>l. CHR ''@'' \<notin> set l \<longrightarrow>
                count_list (config_plugins s') l = count_list (config_plugins ?s1) l - count_list rest l"
          "\<forall>m. match_strict m \<noteq> None \<and> m \<in> set (config_plugins ?s1) \<longrightarrow> m \<in> set (config_plugins s')"
          "\<forall>l q. l \<in> set rest \<and> match_strict l = None \<and> from_string l False = Inr q
                \<and> match_strict (str q) \<noteq> None \<longrightarrow> str q \<in> set (config_plugins s')"
      by blast
    have hat: "CHR ''@'' \<in> set h" using Some strict_needs_at[of h] by auto
    have a: "trace s' = trace s @ (e1 @ evs) \<and> list_all loading_event (e1 @ evs)"
      using ih(4,5) f1(4,5) by simp
    have b: "\<forall>l. CHR ''@'' \<notin> set l \<longrightarrow>
                count_list (config_plugins s') l = count_list (config_plugins s) l - count_list (h # rest) l"
      using ih(6) f1(1) hat by auto
    have c: "\<forall>m. match_strict m \<noteq> None \<and> m \<in> set (config_plugins s) \<longrightarrow> m \<in> set (config_plugins s')"
      using ih(7) f1(1) by simp
    have d: "\<forall>l q. l \<in> set (h # rest) \<and> match_strict l = None \<and> from_string l False = Inr q
                \<and> match_strict (str q) \<noteq> None \<longrightarrow> str q \<in> set (config_plugins s')"
      using ih(8) Some by auto
    show ?thesis
    proof (intro exI conjI)
      show "load_entries env s (h # rest) = (Inr (), s')" using step ih(1) by simp
      show "stored_plugins s' = stored_plugins s" using ih(2) f1(2) by simp
      show "ready s' = ready s" using ih(3) f1(3) by simp
      show "trace s' = trace s @ (e1 @ evs)" using a by simp
      show "list_all loading_event (e1 @ evs)" using a by simp
    qed (rule b, rule c, rule d)
  next
    case None
    from inv[OF None] have hin: "h \<in> set (config_plugins s)"
      by (cases "h \<in> set (config_plugins s)") (auto simp: count_list_0_iff)
    let ?s1 = "s\<lparr>config_plugins := remove1 h (config_plugins s)\<rparr>"
    have strictL: "from_string h True = Inl InvalidPluginError"
      using None by (simp add: from_string_def)
    show ?thesis
    proof (cases "from_string h False")
      case (Inl e)
      from strictL Inl hin have step: "load_entries env s (h # rest) = load_entries env ?s1 rest"
        by (simp add: Let_def)
      have "\<And>x. match_strict x = None \<Longrightarrow> count_list rest x \<le> count_list (config_plugins ?s1) x"
      proof -
        fix x assume x: "match_strict x = None"
        from inv[OF x] show "count_list rest x \<le> count_list (config_plugins ?s1) x"
          by (auto simp: count_list_remove1 split: if_splits)
      qed
      from Cons.IH[OF this] obtain s' evs where
        ih: "load_entries env ?s1 rest = (Inr (), s')"
            "stored_plugins s' = stored_plugins ?s1" "ready s' = ready ?s1"
            "trace s' = trace ?s1 @ evs" "list_all loading_event evs"
            "\<forall>l. CHR ''@'' \<notin> set l \<longrightarrow>
                  count_list (config_plugins s') l = count_list (config_plugins ?s1) l - count_list rest l"
            "\<forall>m. match_strict m \<noteq> None \<and> m \<in> set (config_plugins ?s1) \<longrightarrow> m \<in> set (config_plugins s')"
            "\<forall>l q. l \<in> set rest \<and> match_strict l = None \<and> from_string l False = Inr q
                  \<and> match_strict (str q) \<noteq> None \<longrightarrow> str q \<in> set (config_plugins s')"
        by blast
      have b: "\<forall>l. CHR ''@'' \<notin> set l \<longrightarrow>
                  count_list (config_plugins s') l = count_list (config_plugins s) l - count_list (h # rest) l"
        using ih(6) hin by (auto simp: count_list_remove1)
      have c: "\<forall>m. match_strict m \<noteq> None \<and> m \<in> set (config_plugins s) \<longrightarrow> m \<in> set (config_plugins s')"
      proof (intro allI impI)
        fix m assume m: "match_strict m \<noteq> None \<and> m \<in> set (config_plugins s)"
        with None have "m \<noteq> h" by auto
        with m have "m \<in> set (remove1 h (config_plugins s))" by simp
        with ih(7) m show "m \<in> set (config_plugins s')" by simp
      qed
      have d: "\<forall>l q. l \<in> set (h # rest) \<and> match_strict l = None \<and> from_string l False = Inr q
                  \<and> match_strict (str q) \<noteq> None \<longrightarrow> str q \<in> set (config_plugins s')"
        using ih(8) Inl by auto
      show ?thesis
      proof (intro exI conjI)
        show "load_entries env s (h # rest) = (Inr (), s')" using step ih(1) by simp
        show "stored_plugins s' = stored_plugins s" using ih(2) by simp
        show "ready s' = ready s" using ih(3) by simp
        show "trace s' = trace s @ evs" using ih(4) by simp
        show "list_all loading_event evs" using ih(5) .
      qed (rule b, rule c, rule d)
    next
      case (Inr p)
      let ?s2 = "?s1\<lparr>config_plugins := config_plugins ?s1 @ [str p]\<rparr>"
      let ?s3 = "try_load env ?s2 p"
      from strictL Inr hin have step: "load_entries env s (h # rest) = load_entries env ?s3 rest"
        by (simp add: Let_def)
      from try_load_frame[of env ?s2 p] obtain e1 where
        f1: "config_plugins ?s3 = remove1 h (config_plugins s) @ [str p]"
            "stored_plugins ?s3 = stored_plugins s"
            "ready ?s3 = ready s" "trace ?s3 = trace s @ e1" "list_all loading_event e1"
        by auto
      have "\<And>x. match_strict x = None \<Longrightarrow> count_list rest x \<le> count_list (config_plugins ?s3) x"
      proof -
        fix x assume x: "match_strict x = None"
        from inv[OF x] show "count_list rest x \<le> count_list (config_plugins ?s3) x"
          unfolding f1(1) by (auto simp: count_list_remove1 split: if_splits)
      qed
      from Cons.IH[OF this] obtain s' evs where
        ih: "load_entries env ?s3 rest = (Inr (), s')"
            "stored_plugins s' = stored_plugins ?s3" "ready s' = ready ?s3"
            "trace s' = trace ?s3 @ evs" "list_all loading_event evs"
            "\<forall>l. CHR ''@'' \<notin> set l \<longrightarrow>
                  count_list (config_plugins s') l = count_list (config_plugins ?s3) l - count_list rest l"
            "\<forall>m. match_strict m \<noteq> None \<and> m \<in> set (config_plugins ?s3) \<longrightarrow> m \<in> set (config_plugins s')"
            "\<forall>l q. l \<in> set rest \<and> match_strict l = None \<and> from_string l False = Inr q
                  \<and> match_strict (str q) \<noteq> None \<longrightarrow> str q \<in> set (config_plugins s')"
        by blast
      have pat: "CHR ''@'' \<in> set (str p)" by (simp add: str_def)
      have a: "trace s' = trace s @ (e1 @ evs) \<and> list_all loading_event (e1 @ evs)"
        using ih(4,5) f1(4,5) by simp
      have b: "\<forall>l. CHR ''@'' \<notin> set l \<longrightarrow>
                  count_list (config_plugins s') l = count_list (config_plugins s) l - count_list (h # rest) l"
      proof (intro allI impI)
        fix l assume l: "CHR ''@'' \<notin> set l"
        with pat have "l \<noteq> str p" by auto
        with ih(6) l f1(1) hin
        show "count_list (config_plugins s') l = count_list (config_plugins s) l - count_list (h # rest) l"
          by (auto simp: count_list_remove1)
      qed
      have c: "\<forall>m. match_strict m \<noteq> None \<and> m \<in> set (config_plugins s) \<longrightarrow> m \<in> set (config_plugins s')"
      proof (intro allI impI)
        fix m assume m: "match_strict m \<noteq> None \<and> m \<in> set (config_plugins s)"
        with None have "m \<noteq> h" by auto
        with m have "m \<in> set (config_plugins ?s3)" unfolding f1(1) by simp
        with ih(7) m show "m \<in> set (config_plugins s')" by simp
      qed
      have d: "\<forall>l q. l \<in> set (h # rest) \<and> match_strict l = None \<and> from_string l False = Inr q
                  \<and> match_strict (str q) \<noteq> None \<longrightarrow> str q \<in> set (config_plugins s')"
      proof (intro allI impI)
        fix l q assume lq: "l \<in> set (h # rest) \<and> match_strict l = None \<and> from_string l False = Inr q
                  \<and> match_strict (str q) \<noteq> None"
        show "str q \<in> set (config_plugins s')"
        proof (cases "l = h")
          case True
          with lq Inr have "q = p" by simp
          with lq have "match_strict (str p) \<noteq> None \<and> str p \<in> set (config_plugins ?s3)"
            unfolding f1(1) by simp
          with ih(7) \<open>q = p\<close> show ?thesis by simp
        next
          case False
          with lq ih(8) show ?thesis by auto
        qed
      qed
      show ?thesis
      proof (intro exI conjI)
        show "load_entries env s (h # rest) = (Inr (), s')" using step ih(1) by simp
        show "stored_plugins s' = stored_plugins s" using ih(2) f1(2) by simp
        show "ready s' = ready s" using ih(3) f1(3) by simp
        show "trace s' = trace s @ (e1 @ evs)" using a by simp
        show "list_all loading_event (e1 @ evs)" using a by simp
      qed (rule b, rule c, rule d)
    qed
  qed
qed

lemma loading_events_then_gate:
  "list_all loading_event evs \<Longrightarrow> \<not> persist_precedes_gate (evs @ ReadySet # es)"
proof (induction evs)
  case Nil
  then show ?case by simp
next
  case (Cons e evs)
  then show ?case by (cases e) auto
qed

text \<open>
  C3, as stated, fails in its order: \<open>initial_load_plugins\<close> sets the event first and calls
  \<open>config.update()\<close> after it. On a stored list with the one legacy entry \<open>a/b/c\<close> the
  effects are the download attempt, then the event, then the update of the store.
\<close>

theorem gate_opens_before_persist:
  "trace (snd (initial_load_plugins offline_env legacy_bot))
     = [HttpGet ''https://github.com/a/b/archive/master.zip'', ReadySet,
        ConfigUpdate [''a/b/c@master'']]
   \<and> \<not> persist_precedes_gate (trace (snd (initial_load_plugins offline_env legacy_bot)))"
  by (simp add: model_defs offline_env_def legacy_bot_def)

text \<open>
  C3, amended. For a legacy entry \<open>u/r/n\<close> (fields not empty, without \<open>/\<close>, \<open>@\<close> and line
  feed) anywhere in the list, and a store that accepts the update, the bulk load returns
  normally; afterwards the list holds \<open>u/r/n@master\<close> and no longer \<open>u/r/n\<close>, the store
  holds the same list and the event is set. Its effects are those of downloading and
  loading, then the setting of the event, then one update of the store with the
  rewritten list: the rewrite in memory precedes the opening of the gate, the
  persisting follows it.
\<close>

theorem initial_load_rewrites_legacy:
  assumes "valid_field u" "valid_field r" "valid_field n"
    and "u @ ''/'' @ r @ ''/'' @ n \<in> set (config_plugins s)"
    and "config_update_ok env"
  shows "\<exists>s' evs. initial_load_plugins env s = (Inr (), s')
      \<and> u @ ''/'' @ r @ ''/'' @ n @ ''@master'' \<in> set (config_plugins s')
      \<and> u @ ''/'' @ r @ ''/'' @ n \<notin> set (config_plugins s')
      \<and> stored_plugins s' = config_plugins s' \<and> ready s'
      \<and> trace s' = trace s @ evs @ [ReadySet, ConfigUpdate (config_plugins s')]
      \<and> list_all loading_event evs
      \<and> \<not> persist_precedes_gate (evs @ [ReadySet, ConfigUpdate (config_plugins s')])"
proof -
  let ?l = "u @ ''/'' @ r @ ''/'' @ n"
  let ?q = "\<lparr>user = u, repo = r, name = n, branch = ''master''\<rparr>"
  have "\<And>x. match_strict x = None \<Longrightarrow>
          count_list (config_plugins s) x \<le> count_list (config_plugins s) x"
    by simp
  from load_entries_migrates[of "config_plugins s" s env, OF this] obtain s1 evs where
    le: "load_entries env s (config_plugins s) = (Inr (), s1)"
      and fr: "stored_plugins s1 = stored_plugins s" "ready s1 = ready s"
      and tr: "trace s1 = trace s @ evs" "list_all loading_event evs"
      and cnt: "\<forall>l. CHR ''@'' \<notin> set l \<longrightarrow>
           count_list (config_plugins s1) l = count_list (config_plugins s) l - count_list (config_plugins s) l"
      and app: "\<forall>l q. l \<in> set (config_plugins s) \<and> match_strict l = None \<and> from_string l False = Inr q
                \<and> match_strict (str q) \<noteq> None \<longrightarrow> str q \<in> set (config_plugins s1)"
    by blast
  have noat: "CHR ''@'' \<notin> set ?l" using assms(1-3) by (auto simp: valid_field_def)
  with cnt have "count_list (config_plugins s1) ?l = 0" by simp
  then have gone: "?l \<notin> set (config_plugins s1)" by (simp add: count_list_0_iff)
  have ms: "match_strict ?l = None" using strict_needs_at[OF noat] .
  have fl: "from_string ?l False = Inr ?q"
    using lenient_plain[OF assms(1-3)] by (simp add: from_string_def Plugin_def)
  have vb: "valid_branch ''master''" by (simp add: valid_branch_def newline_def)
  have sq: "str ?q = u @ ''/'' @ r @ ''/'' @ n @ ''@'' @ ''master''" by (simp add: str_def)
  have "match_strict (str ?q) \<noteq> None"
    unfolding sq using strict_branch[OF assms(1-3) vb] by simp
  with app assms(4) ms fl have "str ?q \<in> set (config_plugins s1)" by blast
  then have there: "u @ ''/'' @ r @ ''/'' @ n @ ''@master'' \<in> set (config_plugins s1)"
    by (simp add: str_def)
  let ?s' = "emit (ConfigUpdate (config_plugins s1))
               ((emit ReadySet (s1\<lparr>ready := True\<rparr>))\<lparr>stored_plugins := config_plugins s1\<rparr>)"
  have res: "initial_load_plugins env s = (Inr (), ?s')"
    using le assms(5) by (simp add: initial_load_plugins_def config_update_def)
  have c': "config_plugins ?s' = config_plugins s1" by (simp add: emit_def)
  show ?thesis
  proof (intro exI conjI)
    show "initial_load_plugins env s = (Inr (), ?s')" by (rule res)
    show "u @ ''/'' @ r @ ''/'' @ n @ ''@master'' \<in> set (config_plugins ?s')"
      using there c' by simp
    show "u @ ''/'' @ r @ ''/'' @ n \<notin> set (config_plugins ?s')" using gone c' by simp
    show "stored_plugins ?s' = config_plugins ?s'" by (simp add: emit_def)
    show "ready ?s'" by (simp add: emit_def)
    show "trace ?s' = trace s @ evs @ [ReadySet, ConfigUpdate (config_plugins ?s')]"
      using tr(1) by (simp add: emit_def)
    show "list_all loading_event evs" by (rule tr(2))
    show "\<not> persist_precedes_gate (evs @ [ReadySet, ConfigUpdate (config_plugins ?s')])"
      using loading_events_then_gate[OF tr(2)] by simp
  qed
qed

theorem initial_load_rewrites_legacy_witness:
  "valid_field ''a'' \<and> valid_field ''b'' \<and> valid_field ''c''
   \<and> ''a/b/c'' \<in> set (config_plugins legacy_bot) \<and> config_update_ok offline_env
   \<and> (\<exists>s' evs. initial_load_plugins offline_env legacy_bot = (Inr (), s')
        \<and> ''a/b/c@master'' \<in> set (config_plugins s')
        \<and> ''a/b/c'' \<notin> set (config_plugins s')
        \<and> stored_plugins s' = config_plugins s' \<and> ready s'
        \<and> trace s' = trace legacy_bot @ evs @ [ReadySet, ConfigUpdate (config_plugins s')]
        \<and> list_all loading_event evs
        \<and> \<not> persist_precedes_gate (evs @ [ReadySet, ConfigUpdate (config_plugins s')]))"
proof -
  have v: "valid_field ''a''" "valid_field ''b''" "valid_field ''c''"
    by (simp_all add: valid_field_def newline_def)
  have m: "''a'' @ ''/'' @ ''b'' @ ''/'' @ ''c'' \<in> set (config_plugins legacy_bot)"
    by (simp add: legacy_bot_def)
  have o: "config_update_ok offline_env" by (simp add: offline_env_def)
  have m': "''a/b/c'' \<in> set (config_plugins legacy_bot)" using m by simp
  from initial_load_rewrites_legacy[OF v m o]
  have e: "\<exists>s' evs. initial_load_plugins offline_env legacy_bot = (Inr (), s')
        \<and> ''a/b/c@master'' \<in> set (config_plugins s')
        \<and> ''a/b/c'' \<notin> set (config_plugins s')
        \<and> stored_plugins s' = config_plugins s' \<and> ready s'
        \<and> trace s' = trace legacy_bot @ evs @ [ReadySet, ConfigUpdate (config_plugins s')]
        \<and> list_all loading_event evs
        \<and> \<not> persist_precedes_gate (evs @ [ReadySet, ConfigUpdate (config_plugins s')])"
    by simp
  show ?thesis by (intro conjI v m' o e)
qed

section \<open>Update over all plugins, and the loaded set\<close>

text \<open>
  C2, evaluated on the code. With \<open>u/r/p@master\<close> and \<open>u/r/q@master\<close> in the list and a
  dependency installation that fails for \<open>p\<close>, the update over all plugins raises
  \<open>InvalidPluginError\<close> out of the loop: after the download and the \<open>pip\<close> run for \<open>p\<close>
  nothing happens for \<open>q\<close> (no request, no install directory), although updating \<open>q\<close> on
  its own succeeds in the same environment.
\<close>

theorem update_all_stops_at_first_failure:
  "fst (plugins_update pip_failing_env two_plugin_bot None) = Inl InvalidPluginError
   \<and> trace (snd (plugins_update pip_failing_env two_plugin_bot None))
       = [HttpGet ''https://github.com/u/r/archive/master.zip'',
          PipInstall [''/'', ''bot'', ''plugins'', ''u'', ''r'', ''p-master'', ''requirements.txt'']]
   \<and> \<not> path_exists (files (snd (plugins_update pip_failing_env two_plugin_bot None)))
          [''/'', ''bot'', ''plugins'', ''u'', ''r'', ''q-master'']
   \<and> fst (update_plugin pip_failing_env two_plugin_bot ''u/r/q@master'') = Inr ()
   \<and> trace (snd (update_plugin pip_failing_env two_plugin_bot ''u/r/q@master''))
       = [HttpGet ''https://github.com/u/r/archive/master.zip'', Send (Updated ''q'')]"
  by (simp add: model_defs pip_failing_env_def good_env_def offline_env_def two_plugin_bot_def
      plugin_archive_def)

text \<open>
  C8, evaluated on the code. The bulk load installs and loads \<open>u/r/q@master\<close>. An update
  whose new code fails to load unloads the extension and raises, leaving \<open>q\<close> in the
  loaded set. The removal that follows finds the extension not loaded, skips
  \<open>loaded_plugins.remove\<close> (same \<open>try\<close> block) and deletes the install directory: \<open>q\<close> is
  in the loaded set and its install directory is gone.
\<close>

theorem loaded_plugin_without_directory:
  "\<lparr>user = ''u'', repo = ''r'', name = ''q'', branch = ''master''\<rparr>
      \<in> loaded_plugins (snd (initial_load_plugins good_env startup_bot))
   \<and> path_exists (files (snd (initial_load_plugins good_env startup_bot)))
        (abs_path [''/'', ''bot''] \<lparr>user = ''u'', repo = ''r'', name = ''q'', branch = ''master''\<rparr>)
   \<and> fst (run_command broken_env (snd (initial_load_plugins good_env startup_bot))
            (Update (Some ''u/r/q@master''))) = Inl InvalidPluginError
   \<and> \<lparr>user = ''u'', repo = ''r'', name = ''q'', branch = ''master''\<rparr>
      \<in> loaded_plugins
          (run_commands (snd (initial_load_plugins good_env startup_bot))
             [(broken_env, Update (Some ''u/r/q@master'')), (good_env, Remove ''u/r/q@master'')])
   \<and> \<not> path_exists
        (files (run_commands (snd (initial_load_plugins good_env startup_bot))
             [(broken_env, Update (Some ''u/r/q@master'')), (good_env, Remove ''u/r/q@master'')]))
        (abs_path [''/'', ''bot''] \<lparr>user = ''u'', repo = ''r'', name = ''q'', branch = ''master''\<rparr>)"
  by (simp add: model_defs run_command_def broken_env_def good_env_def offline_env_def
      startup_bot_def plugin_archive_def)

end
